theory Spec2Isabelle
  imports Complex_Main "HOL-Library.List_Lexorder" "HOL-Library.Char_ord" "HOL-Library.AList"
begin

section \<open>Decimals\<close>

text \<open>
  The router computes with \<^verbatim>\<open>decimal.Decimal\<close> (github.com/shopspring/decimal): an
  arbitrary-precision integer times a power of ten. Every such value is a rational number,
  and \<^verbatim>\<open>Add\<close>, \<^verbatim>\<open>Sub\<close>, \<^verbatim>\<open>Mul\<close>, \<^verbatim>\<open>Abs\<close> and the comparisons are exact,
  so a decimal is modelled by the rational it denotes. \<^verbatim>\<open>Div\<close> is not exact: it is
  \<^verbatim>\<open>DivRound(d2, DivisionPrecision)\<close> with \<^verbatim>\<open>DivisionPrecision = 16\<close>, the quotient rounded
  to 16 digits after the decimal point, ties away from zero, and it panics on a zero divisor.
\<close>

type_synonym decimal = rat

definition DivisionPrecision :: nat where
  "DivisionPrecision = 16"

definition round_half_away :: "rat \<Rightarrow> int" where
  "round_half_away q = (if 0 \<le> q then \<lfloor>q + 1 / 2\<rfloor> else - \<lfloor>- q + 1 / 2\<rfloor>)"

definition DivRound :: "decimal \<Rightarrow> decimal \<Rightarrow> nat \<Rightarrow> decimal" where
  "DivRound d d2 precision = of_int (round_half_away (d / d2 * 10 ^ precision)) / 10 ^ precision"

text \<open>\<^verbatim>\<open>Decimal.Div\<close>; \<open>None\<close> is the panic "decimal division by 0".\<close>

definition Div :: "decimal \<Rightarrow> decimal \<Rightarrow> decimal option" where
  "Div d d2 = (if d2 = 0 then None else Some (DivRound d d2 DivisionPrecision))"

section \<open>Assets and requests (types.go, errors.go)\<close>

record Asset =
  Currency :: string
  Issuer :: string

text \<open>\<^verbatim>\<open>Asset.String\<close>: the canonical string of an asset.\<close>

definition String :: "Asset \<Rightarrow> string" where
  "String a = (if Issuer a = [] then Currency a else Currency a @ ''.'' @ Issuer a)"

record QuoteRequest =
  In :: Asset
  Out :: Asset
  Amount :: decimal

datatype error =
    ErrInvalidAmount
  | ErrAmountTooLarge
  | ErrInvalidAsset
  | ErrSameAssets
  | ErrInvalidAddress
  | ErrNoRoute
  | ErrInsufficientLiquidity
  | ErrCircuitBreakerOpen

section \<open>Validator (validator.go)\<close>

text \<open>
  The two regular expressions, as predicates on the bytes of a Go string. Both are anchored
  at both ends and their character classes are ASCII, so a string matches exactly when every
  byte is in the class and the length is in the stated range.
\<close>

definition base58_char :: "char \<Rightarrow> bool" where
  "base58_char c = (c \<in> set ''123456789ABCDEFGHJKLMNPQRSTUVWXYZabcdefghijkmnopqrstuvwxyz'')"

definition currency_char :: "char \<Rightarrow> bool" where
  "currency_char c = (c \<in> set ''ABCDEFGHIJKLMNOPQRSTUVWXYZ0123456789'')"

text \<open>\<^verbatim>\<open>^r[1-9A-HJ-NP-Za-km-z]{24,34}$\<close>\<close>

definition xrplAddressRegex :: "string \<Rightarrow> bool" where
  "xrplAddressRegex s =
     (case s of
        [] \<Rightarrow> False
      | c # cs \<Rightarrow> c = CHR ''r'' \<and> 24 \<le> length cs \<and> length cs \<le> 34 \<and> list_all base58_char cs)"

text \<open>\<^verbatim>\<open>^[A-Z0-9]{3,40}$\<close>\<close>

definition currencyRegex :: "string \<Rightarrow> bool" where
  "currencyRegex s = (3 \<le> length s \<and> length s \<le> 40 \<and> list_all currency_char s)"

text \<open>
  \<^verbatim>\<open>strings.TrimSpace\<close> removes leading and trailing Unicode white space. On the bytes of
  the string these are the UTF-8 encodings of the code points for which
  \<^verbatim>\<open>unicode.IsSpace\<close> holds: tab, line feed, vertical tab, form feed, carriage return,
  space, U+0085, U+00A0, U+1680, U+2000 to U+200A, U+2028, U+2029, U+202F, U+205F and U+3000.
\<close>

definition space_runes :: "string list" where
  "space_runes =
     [[CHR 0x09], [CHR 0x0A], [CHR 0x0B], [CHR 0x0C], [CHR 0x0D], [CHR 0x20],
      [CHR 0xC2, CHR 0x85], [CHR 0xC2, CHR 0xA0], [CHR 0xE1, CHR 0x9A, CHR 0x80],
      [CHR 0xE2, CHR 0x80, CHR 0x80], [CHR 0xE2, CHR 0x80, CHR 0x81],
      [CHR 0xE2, CHR 0x80, CHR 0x82], [CHR 0xE2, CHR 0x80, CHR 0x83],
      [CHR 0xE2, CHR 0x80, CHR 0x84], [CHR 0xE2, CHR 0x80, CHR 0x85],
      [CHR 0xE2, CHR 0x80, CHR 0x86], [CHR 0xE2, CHR 0x80, CHR 0x87],
      [CHR 0xE2, CHR 0x80, CHR 0x88], [CHR 0xE2, CHR 0x80, CHR 0x89],
      [CHR 0xE2, CHR 0x80, CHR 0x8A], [CHR 0xE2, CHR 0x80, CHR 0xA8],
      [CHR 0xE2, CHR 0x80, CHR 0xA9], [CHR 0xE2, CHR 0x80, CHR 0xAF],
      [CHR 0xE2, CHR 0x81, CHR 0x9F], [CHR 0xE3, CHR 0x80, CHR 0x80]]"

text \<open>The width in bytes of the white-space rune a string starts with, 0 when there is none.\<close>

definition leading_space :: "string \<Rightarrow> nat" where
  "leading_space s =
     (case find (\<lambda>w. take (length w) s = w) space_runes of None \<Rightarrow> 0 | Some w \<Rightarrow> length w)"

fun TrimLeftSpace :: "nat \<Rightarrow> string \<Rightarrow> string" where
  "TrimLeftSpace 0 s = s"
| "TrimLeftSpace (Suc n) s =
     (if leading_space s = 0 then s else TrimLeftSpace n (drop (leading_space s) s))"

text \<open>The width of the white-space rune a string ends with, 0 when there is none.\<close>

definition trailing_space :: "string \<Rightarrow> nat" where
  "trailing_space s =
     (case find (\<lambda>w. length w \<le> length s \<and> drop (length s - length w) s = w) space_runes of
        None \<Rightarrow> 0
      | Some w \<Rightarrow> length w)"

fun TrimRightSpace :: "nat \<Rightarrow> string \<Rightarrow> string" where
  "TrimRightSpace 0 s = s"
| "TrimRightSpace (Suc n) s =
     (if trailing_space s = 0 then s
      else TrimRightSpace n (take (length s - trailing_space s) s))"

text \<open>
  Each round removes at least one byte, so \<open>length s\<close> rounds reach the fixed point.
\<close>

definition TrimSpace :: "string \<Rightarrow> string" where
  "TrimSpace s = (let l = TrimLeftSpace (length s) s in TrimRightSpace (length l) l)"

definition IsValidXRPLAddress :: "string \<Rightarrow> bool" where
  "IsValidXRPLAddress address =
     (if address = [] then False
      else let address = TrimSpace address in
        if \<not> xrplAddressRegex address then False else True)"

text \<open>\<open>None\<close> is the nil error.\<close>

definition ValidateAsset :: "Asset \<Rightarrow> error option" where
  "ValidateAsset asset =
     (if Currency asset = [] then Some ErrInvalidAsset
      else if Currency asset = ''XRP'' then
        (if Issuer asset \<noteq> [] then Some ErrInvalidAsset else None)
      else if \<not> currencyRegex (Currency asset) then Some ErrInvalidAsset
      else if Issuer asset = [] then Some ErrInvalidAsset
      else if \<not> IsValidXRPLAddress (Issuer asset) then Some ErrInvalidAddress
      else None)"

definition ValidateQuoteRequest :: "QuoteRequest \<Rightarrow> error option" where
  "ValidateQuoteRequest req =
     (if Amount req \<le> 0 then Some ErrInvalidAmount
      else if Amount req > 10 ^ 18 then Some ErrAmountTooLarge
      else case ValidateAsset (In req) of
        Some err \<Rightarrow> Some err
      | None \<Rightarrow>
          (case ValidateAsset (Out req) of
             Some err \<Rightarrow> Some err
           | None \<Rightarrow> if String (In req) = String (Out req) then Some ErrSameAssets else None))"

subsection \<open>The validation rules as the specification words them\<close>

text \<open>
  A structural error of an asset: the currency is empty; or the asset is native and carries
  an issuer; or it is not native and its currency is malformed or its issuer is missing.
\<close>

definition structural_error :: "Asset \<Rightarrow> bool" where
  "structural_error a =
     (Currency a = [] \<or>
      (Currency a = ''XRP'' \<and> Issuer a \<noteq> []) \<or>
      (Currency a \<noteq> ''XRP'' \<and> (\<not> currencyRegex (Currency a) \<or> Issuer a = [])))"

text \<open>An address-pattern failure: the issuer of a non-native asset, trimmed, misses the pattern.\<close>

definition address_failure :: "Asset \<Rightarrow> bool" where
  "address_failure a =
     (Currency a \<noteq> ''XRP'' \<and> Issuer a \<noteq> [] \<and> \<not> xrplAddressRegex (TrimSpace (Issuer a)))"

text \<open>The checks in the stated order, each with its rejection; the first violated one decides.\<close>

definition validation_checks :: "QuoteRequest \<Rightarrow> (bool \<times> error) list" where
  "validation_checks req =
     [(0 < Amount req, ErrInvalidAmount),
      (Amount req \<le> 10 ^ 18, ErrAmountTooLarge),
      (\<not> structural_error (In req), ErrInvalidAsset),
      (\<not> address_failure (In req), ErrInvalidAddress),
      (\<not> structural_error (Out req), ErrInvalidAsset),
      (\<not> address_failure (Out req), ErrInvalidAddress),
      (String (In req) \<noteq> String (Out req), ErrSameAssets)]"

fun first_violation :: "(bool \<times> error) list \<Rightarrow> error option" where
  "first_violation [] = None"
| "first_violation ((ok, e) # cs) = (if ok then first_violation cs else Some e)"

section \<open>Pools, offers and hops (types.go)\<close>

record AMMPool =
  Asset1 :: Asset
  Asset2 :: Asset
  Asset1Reserve :: decimal
  Asset2Reserve :: decimal
  TradingFeeBps :: int
  LPToken :: string
  Account :: string

record Offer =
  TakerPays :: Asset
  TakerGets :: Asset
  Quality :: decimal
  OfferAccount :: string
  Sequence :: nat

datatype hop_type = amm | orderbook

text \<open>
  \<^verbatim>\<open>Hop\<close>; its fields \<^verbatim>\<open>In\<close> and \<^verbatim>\<open>Out\<close> are \<open>HopIn\<close> and \<open>HopOut\<close> here, the plain
  names being those of the request's fields. \<^verbatim>\<open>Type\<close> is one of the two strings
  \<^verbatim>\<open>"amm"\<close> and \<^verbatim>\<open>"orderbook"\<close>.
\<close>

record Hop =
  Type :: hop_type
  HopIn :: Asset
  HopOut :: Asset
  AmountIn :: decimal
  AmountOut :: decimal

section \<open>AMM hop evaluator (breaker.go, second file)\<close>

text \<open>\<^verbatim>\<open>Pathfinder.calculateAMMOutput\<close>; \<open>None\<close> is the panic of a division by zero.\<close>

definition calculateAMMOutput :: "AMMPool \<Rightarrow> decimal \<Rightarrow> bool \<Rightarrow> decimal option" where
  "calculateAMMOutput pool amountIn asset1ToAsset2 =
     (let (reserveIn, reserveOut) =
            (if asset1ToAsset2 then (Asset1Reserve pool, Asset2Reserve pool)
             else (Asset2Reserve pool, Asset1Reserve pool))
      in case Div (of_int (TradingFeeBps pool)) 10000 of
           None \<Rightarrow> None
         | Some q \<Rightarrow>
             let feeMultiplier = 1 - q;
                 amountInAfterFee = amountIn * feeMultiplier;
                 numerator = amountInAfterFee * reserveOut;
                 denominator = reserveIn + amountInAfterFee
             in Div numerator denominator)"

subsection \<open>The constant-product formula as the specification words it\<close>

definition amm_quotient :: "rat \<Rightarrow> rat \<Rightarrow> int \<Rightarrow> rat \<Rightarrow> rat" where
  "amm_quotient R_in R_out fee_bps x =
     (x * (1 - of_int fee_bps / 10000) * R_out) / (R_in + x * (1 - of_int fee_bps / 10000))"

text \<open>Rounding to 16 digits after the decimal point, ties away from zero.\<close>

definition round16 :: "rat \<Rightarrow> rat" where
  "round16 q = of_int (round_half_away (q * 10 ^ 16)) / 10 ^ 16"

text \<open>The pool of the specification's scenario "Direct AMM".\<close>

definition scenario_pool :: AMMPool where
  "scenario_pool =
     \<lparr>Asset1 = \<lparr>Currency = ''XRP'', Issuer = []\<rparr>,
      Asset2 = \<lparr>Currency = ''USD'', Issuer = ''rvYAfWj5gh67oV6fW32ZzP3Aw4Eubs59B''\<rparr>,
      Asset1Reserve = 10000, Asset2Reserve = 15000, TradingFeeBps = 30,
      LPToken = [], Account = []\<rparr>"

section \<open>Circuit breaker (breaker.go, first file)\<close>

text \<open>
  Instants and durations are counted in nanoseconds, as \<^verbatim>\<open>time.Duration\<close> does. A call
  reads the clock up to three times; the model passes one instant \<open>now\<close> for the call.
\<close>

type_synonym time = int

definition Second :: int where
  "Second = 1000000000"

definition DefaultMaxPrices :: nat where
  "DefaultMaxPrices = 100"

definition DefaultFailureLimit :: int where
  "DefaultFailureLimit = 5"


text \<open>The field \<^verbatim>\<open>state\<close> holds one of the three string constants.\<close>

datatype state_name = StateClosed | StateOpen | StateHalfOpen

record breakerState =
  pair :: string
  recentPrices :: "decimal list"
  lastTradeTs :: time
  state :: state_name
  failures :: int
  openedAt :: time

text \<open>
  \<^verbatim>\<open>threshold\<close> is a float64; the field holds the rational that the float denotes.
  The conversion \<^verbatim>\<open>decimal.NewFromFloat\<close> is a parameter of the functions below,
  and the float product with 0.5 is the exact half. The persist callback is outside the
  model: it is taken to be absent or to leave the state as it is.
\<close>

record CircuitBreaker =
  states :: "string \<rightharpoonup> breakerState"
  threshold :: rat
  cautionMode :: bool
  cautionUntil :: time

text \<open>The value a Go function hands back: it returns an error (or nil), or it panics.\<close>

datatype ret = Return "error option" | Panic




definition recordPrice :: "breakerState \<Rightarrow> decimal \<Rightarrow> breakerState" where
  "recordPrice st price =
     (let prices = recentPrices st @ [price]
      in st\<lparr>recentPrices := (if length prices > DefaultMaxPrices then tl prices else prices)\<rparr>)"

definition calculateAverage :: "decimal list \<Rightarrow> decimal option" where
  "calculateAverage prices =
     (if prices = [] then Some 0
      else Div (foldl (+) 0 prices) (of_nat (length prices)))"

text \<open>
  The threshold in force at \<open>now\<close> (lines 81 to 84 of \<^verbatim>\<open>CheckPrice\<close>), and the deviation
  of a price from the mean of the recent prices (lines 91 and 92); \<open>None\<close> is the panic of
  a division by a zero mean.
\<close>

definition effectiveThreshold :: "CircuitBreaker \<Rightarrow> time \<Rightarrow> rat" where
  "effectiveThreshold cb now =
     (if cautionMode cb \<and> now < cautionUntil cb then threshold cb * (1 / 2) else threshold cb)"

definition deviation :: "decimal list \<Rightarrow> decimal \<Rightarrow> decimal option" where
  "deviation prices price =
     (case calculateAverage prices of
        None \<Rightarrow> None
      | Some avgPrice \<Rightarrow>
          (case Div (price - avgPrice) avgPrice of None \<Rightarrow> None | Some q \<Rightarrow> Some \<bar>q\<bar>))"

text \<open>
  The body of \<^verbatim>\<open>CheckPrice\<close> on the state of the pair; the state it returns is the one
  the pointer in the map then designates.
\<close>

definition checkState ::
  "(rat \<Rightarrow> decimal) \<Rightarrow> time \<Rightarrow> CircuitBreaker \<Rightarrow> breakerState \<Rightarrow> decimal \<Rightarrow> ret \<times> breakerState"
where
  "checkState NewFromFloat now cb st0 price =
     (if state st0 = StateOpen \<and> \<not> (now - openedAt st0 > 30 * Second)
      then (Return (Some ErrCircuitBreakerOpen), st0)
      else
        let st = (if state st0 = StateOpen then st0\<lparr>state := StateHalfOpen, failures := 0\<rparr>
                  else st0);
            thr = effectiveThreshold cb now
        in if recentPrices st = [] then (Return None, recordPrice st price)
           else case deviation (recentPrices st) price of
                  None \<Rightarrow> (Panic, st)
                | Some dev \<Rightarrow>
                    if dev > NewFromFloat thr then
                      (let st1 = st\<lparr>failures := failures st + 1\<rparr>;
                           st2 = (if failures st1 \<ge> DefaultFailureLimit
                                  then st1\<lparr>state := StateOpen, openedAt := now\<rparr> else st1)
                       in (Return (Some ErrCircuitBreakerOpen), st2))
                    else
                      (let st1 = (if state st = StateHalfOpen
                                  then st\<lparr>state := StateClosed, failures := 0\<rparr> else st)
                       in (Return None, recordPrice st1 price)))"





text \<open>
  A price is out of threshold at \<open>now\<close> when the deviation the breaker computes from the
  recent prices exceeds the threshold in force.
\<close>

definition out_of_threshold ::
  "(rat \<Rightarrow> decimal) \<Rightarrow> time \<Rightarrow> CircuitBreaker \<Rightarrow> decimal list \<Rightarrow> decimal \<Rightarrow> bool"
where
  "out_of_threshold NewFromFloat now cb prices price =
     (case deviation prices price of
        None \<Rightarrow> False
      | Some dev \<Rightarrow> dev > NewFromFloat (effectiveThreshold cb now))"





section \<open>In-memory KV store (the kv package)\<close>

datatype kv_error =
    ErrKeyTooLong
  | ErrKeyEmpty
  | ErrNamespaceEmpty
  | ErrValueTooLarge
  | ErrMemoryLimit
  | ErrKeyNotFound
  | ErrNamespaceQuota
  | ErrInvalidNamespace
  | ErrInvalidCounter

definition DefaultMaxBytes :: int where
  "DefaultMaxBytes = 512 * 1024 * 1024"

definition DefaultMaxKeyLength :: int where
  "DefaultMaxKeyLength = 256"

definition DefaultMaxValueSize :: int where
  "DefaultMaxValueSize = 1024 * 1024"

definition NamespaceQuotes :: string where
  "NamespaceQuotes = ''quotes''"

definition NamespaceRateLimits :: string where
  "NamespaceRateLimits = ''rate_limits''"

definition NamespaceCircuitBreaker :: string where
  "NamespaceCircuitBreaker = ''circuit_breaker''"

definition NamespaceSystem :: string where
  "NamespaceSystem = ''system''"

definition namespaceQuotas :: "string \<Rightarrow> int option" where
  "namespaceQuotas ns =
     (if ns = NamespaceQuotes then Some 10000
      else if ns = NamespaceRateLimits then Some 100000
      else if ns = NamespaceCircuitBreaker then Some 1000
      else if ns = NamespaceSystem then Some 128
      else None)"

text \<open>
  An entry. \<^verbatim>\<open>value\<close> and \<^verbatim>\<open>size\<close> are \<open>value'\<close> and \<open>size'\<close> here; \<open>expiresAt\<close> is
  \<open>None\<close> for the zero time; \<open>lruNode\<close> is the identity of the list element the entry
  points to.
\<close>

record entry =
  namespace :: string
  key :: string
  value' :: string
  expiresAt :: "time option"
  size' :: int
  lruNode :: nat

text \<open>
  The store. \<open>data\<close> is the map, as an association list with distinct keys; \<open>lru\<close> is the
  \<^verbatim>\<open>container/list\<close>, head first, each element with its identity and the full key it
  holds; \<open>nextNode\<close> is the identity the next new element gets. The cleanup goroutine is the
  operation \<open>cleanup\<close>, run at some instant.
\<close>

record MemoryStore =
  data :: "(string \<times> entry) list"
  lru :: "(nat \<times> string) list"
  nextNode :: nat
  maxBytes :: int
  currentBytes :: int
  maxKeyLength :: int
  maxValueSize :: int
  evictions :: int
  hits :: int
  misses :: int

definition NewMemoryStoreWithConfig :: "int \<Rightarrow> int \<Rightarrow> int \<Rightarrow> MemoryStore" where
  "NewMemoryStoreWithConfig mb mk mv =
     \<lparr>data = [], lru = [], nextNode = 0, maxBytes = mb, currentBytes = 0, maxKeyLength = mk,
      maxValueSize = mv, evictions = 0, hits = 0, misses = 0\<rparr>"

definition NewMemoryStore :: MemoryStore where
  "NewMemoryStore =
     NewMemoryStoreWithConfig DefaultMaxBytes DefaultMaxKeyLength DefaultMaxValueSize"

definition makeKey :: "string \<Rightarrow> string \<Rightarrow> string" where
  "makeKey ns k = ns @ '':'' @ k"

text \<open>
  \<^verbatim>\<open>List.Remove\<close> and \<^verbatim>\<open>List.MoveToFront\<close> do nothing for an element that is no longer
  in the list; \<^verbatim>\<open>List.Back\<close> is nil on the empty list.
\<close>

definition list_Remove :: "nat \<Rightarrow> (nat \<times> string) list \<Rightarrow> (nat \<times> string) list" where
  "list_Remove n l = filter (\<lambda>e. fst e \<noteq> n) l"

definition list_MoveToFront :: "nat \<Rightarrow> (nat \<times> string) list \<Rightarrow> (nat \<times> string) list" where
  "list_MoveToFront n l =
     (case find (\<lambda>e. fst e = n) l of None \<Rightarrow> l | Some e \<Rightarrow> e # filter (\<lambda>e. fst e \<noteq> n) l)"

definition list_Back :: "(nat \<times> string) list \<Rightarrow> (nat \<times> string) option" where
  "list_Back l = (if l = [] then None else Some (last l))"

definition expired :: "time \<Rightarrow> entry \<Rightarrow> bool" where
  "expired now e = (case expiresAt e of None \<Rightarrow> False | Some t \<Rightarrow> now > t)"

text \<open>The entries the quota check and \<^verbatim>\<open>Keys\<close> count as live.\<close>

definition live :: "time \<Rightarrow> entry \<Rightarrow> bool" where
  "live now e = (case expiresAt e of None \<Rightarrow> True | Some t \<Rightarrow> now < t)"

definition validate :: "MemoryStore \<Rightarrow> string \<Rightarrow> string \<Rightarrow> string \<Rightarrow> kv_error option" where
  "validate s ns k v =
     (if ns = [] then Some ErrNamespaceEmpty
      else if k = [] then Some ErrKeyEmpty
      else if int (length k) > maxKeyLength s then Some ErrKeyTooLong
      else if int (length v) > maxValueSize s then Some ErrValueTooLarge
      else None)"

text \<open>The counting loop of \<^verbatim>\<open>checkNamespaceQuota\<close>.\<close>

definition live_count :: "time \<Rightarrow> MemoryStore \<Rightarrow> string \<Rightarrow> int" where
  "live_count now s ns =
     int (length (filter (\<lambda>(fk, e). namespace e = ns \<and> live now e) (data s)))"

definition checkNamespaceQuota :: "time \<Rightarrow> MemoryStore \<Rightarrow> string \<Rightarrow> kv_error option" where
  "checkNamespaceQuota now s ns =
     (case namespaceQuotas ns of
        None \<Rightarrow> None
      | Some quota \<Rightarrow>
          (let count = live_count now s ns
           in if count \<ge> quota then Some ErrNamespaceQuota else None))"

definition deleteEntryLocked :: "MemoryStore \<Rightarrow> string \<Rightarrow> entry \<Rightarrow> MemoryStore" where
  "deleteEntryLocked s fullKey e =
     s\<lparr>lru := list_Remove (lruNode e) (lru s),
       data := AList.delete fullKey (data s),
       currentBytes := currentBytes s - size' e\<rparr>"

definition evictOldest :: "MemoryStore \<Rightarrow> bool \<times> MemoryStore" where
  "evictOldest s =
     (case list_Back (lru s) of
        None \<Rightarrow> (False, s)
      | Some elem \<Rightarrow>
          (case map_of (data s) (snd elem) of
             Some e \<Rightarrow> (True, (deleteEntryLocked s (snd elem) e)\<lparr>evictions := evictions s + 1\<rparr>)
           | None \<Rightarrow> (False, s)))"

lemma length_delete_less:
  "map_of xs k = Some e \<Longrightarrow> length (AList.delete k xs) < length xs"
proof -
  assume "map_of xs k = Some e"
  then have "(k, e) \<in> set xs"
    by (rule map_of_SomeD)
  then show ?thesis
    unfolding AList.delete_eq by (intro length_filter_less) auto
qed

lemma evictOldest_shrinks:
  "evictOldest s = (True, s') \<Longrightarrow> length (data s') < length (data s)"
  by (auto simp: evictOldest_def deleteEntryLocked_def length_delete_less
      split: option.splits)

text \<open>
  The loop \<^verbatim>\<open>for s.currentBytes+int64(entrySize) > s.maxBytes\<close> of \<^verbatim>\<open>Set\<close> and
  \<^verbatim>\<open>setLocked\<close>: \<open>False\<close> when \<^verbatim>\<open>evictOldest\<close> failed (the caller returns
  \<^verbatim>\<open>ErrMemoryLimit\<close>). Every successful eviction removes an entry of the map, so it ends.
\<close>

function evictUntilFits :: "int \<Rightarrow> MemoryStore \<Rightarrow> bool \<times> MemoryStore" where
  "evictUntilFits entrySize s =
     (if currentBytes s + entrySize > maxBytes s then
        (case evictOldest s of
           (True, s') \<Rightarrow> evictUntilFits entrySize s'
         | (False, s') \<Rightarrow> (False, s'))
      else (True, s))"
  by pat_completeness auto
termination
  by (relation "measure (\<lambda>(n, s). length (data s))") (auto simp: evictOldest_shrinks)

declare evictUntilFits.simps [simp del]

text \<open>
  \<^verbatim>\<open>setLocked\<close>. \<^verbatim>\<open>Set\<close> repeats the same statements after its validation and its quota
  check, so the model of \<^verbatim>\<open>Set\<close> calls this function.
\<close>

definition setLocked ::
  "time \<Rightarrow> string \<Rightarrow> string \<Rightarrow> string \<Rightarrow> int \<Rightarrow> MemoryStore \<Rightarrow> kv_error option \<times> MemoryStore"
where
  "setLocked now ns k v ttl s =
     (let fullKey = makeKey ns k;
          entrySize = int (length fullKey) + int (length v) + 64;
          s1 = (case map_of (data s) fullKey of
                  Some existing \<Rightarrow>
                    s\<lparr>currentBytes := currentBytes s - size' existing,
                      lru := list_Remove (lruNode existing) (lru s)\<rparr>
                | None \<Rightarrow> s)
      in case evictUntilFits entrySize s1 of
           (False, s2) \<Rightarrow> (Some ErrMemoryLimit, s2)
         | (True, s2) \<Rightarrow>
             (let e = \<lparr>namespace = ns, key = k, value' = v,
                       expiresAt = (if ttl > 0 then Some (now + ttl) else None),
                       size' = entrySize, lruNode = nextNode s2\<rparr>
              in (None,
                  s2\<lparr>lru := (nextNode s2, fullKey) # lru s2,
                     nextNode := nextNode s2 + 1,
                     data := AList.update fullKey e (data s2),
                     currentBytes := currentBytes s2 + entrySize\<rparr>)))"

definition Set ::
  "time \<Rightarrow> string \<Rightarrow> string \<Rightarrow> string \<Rightarrow> int \<Rightarrow> MemoryStore \<Rightarrow> kv_error option \<times> MemoryStore"
where
  "Set now ns k v ttl s =
     (case validate s ns k v of
        Some err \<Rightarrow> (Some err, s)
      | None \<Rightarrow>
          (case checkNamespaceQuota now s ns of
             Some err \<Rightarrow> (Some err, s)
           | None \<Rightarrow> setLocked now ns k v ttl s))"

definition Get :: "time \<Rightarrow> string \<Rightarrow> string \<Rightarrow> MemoryStore \<Rightarrow> string option \<times> MemoryStore" where
  "Get now ns k s =
     (if ns = [] \<or> k = [] then (None, s\<lparr>misses := misses s + 1\<rparr>)
      else let fullKey = makeKey ns k in
        case map_of (data s) fullKey of
          None \<Rightarrow> (None, s\<lparr>misses := misses s + 1\<rparr>)
        | Some e \<Rightarrow>
            if expired now e
            then (None, (deleteEntryLocked s fullKey e)\<lparr>misses := misses s + 1\<rparr>)
            else (Some (value' e),
                  s\<lparr>lru := list_MoveToFront (lruNode e) (lru s), hits := hits s + 1\<rparr>))"

definition Delete :: "string \<Rightarrow> string \<Rightarrow> MemoryStore \<Rightarrow> kv_error option \<times> MemoryStore" where
  "Delete ns k s =
     (if ns = [] \<or> k = [] then (Some ErrKeyEmpty, s)
      else let fullKey = makeKey ns k in
        case map_of (data s) fullKey of
          None \<Rightarrow> (Some ErrKeyNotFound, s)
        | Some e \<Rightarrow> (None, deleteEntryLocked s fullKey e))"

text \<open>
  \<^verbatim>\<open>strconv.ParseInt(s, 10, 64)\<close> and \<^verbatim>\<open>strconv.FormatInt(n, 10)\<close>; \<open>None\<close> is a syntax
  or range error.
\<close>

definition is_digit :: "char \<Rightarrow> bool" where
  "is_digit c = (c \<in> set ''0123456789'')"

definition digit_value :: "char \<Rightarrow> int" where
  "digit_value c = int (of_char c) - 48"

definition ParseInt :: "string \<Rightarrow> int option" where
  "ParseInt s =
     (let (neg, ds) =
            (case s of
               [] \<Rightarrow> (False, [])
             | c # cs \<Rightarrow>
                 if c = CHR ''+'' then (False, cs)
                 else if c = CHR ''-'' then (True, cs)
                 else (False, s))
      in if ds = [] \<or> \<not> list_all is_digit ds then None
         else let n = foldl (\<lambda>a c. a * 10 + digit_value c) 0 ds;
                  v = (if neg then - n else n)
              in if v < - (2 ^ 63) \<or> v > 2 ^ 63 - 1 then None else Some v)"

fun digits :: "nat \<Rightarrow> string" where
  "digits n =
     (if n < 10 then [char_of (48 + n)] else digits (n div 10) @ [char_of (48 + n mod 10)])"

definition FormatInt :: "int \<Rightarrow> string" where
  "FormatInt n = (if n < 0 then ''-'' @ digits (nat (- n)) else digits (nat n))"

text \<open>\<^verbatim>\<open>count++\<close> on an int64.\<close>

definition int64_incr :: "int \<Rightarrow> int" where
  "int64_incr n = (if n = 2 ^ 63 - 1 then - (2 ^ 63) else n + 1)"

definition IncrementRateLimit ::
  "time \<Rightarrow> string \<Rightarrow> int \<Rightarrow> MemoryStore \<Rightarrow> (int \<times> kv_error option) \<times> MemoryStore"
where
  "IncrementRateLimit now partnerID ttl s =
     (if partnerID = [] then ((0, Some ErrKeyEmpty), s)
      else let fullKey = makeKey NamespaceRateLimits partnerID in
        case map_of (data s) fullKey of
          None \<Rightarrow>
            (case setLocked now NamespaceRateLimits partnerID ''1'' ttl s of
               (Some err, s2) \<Rightarrow> ((0, Some err), s2)
             | (None, s2) \<Rightarrow> ((1, None), s2))
        | Some e \<Rightarrow>
            if expired now e then
              (case setLocked now NamespaceRateLimits partnerID ''1'' ttl
                      (deleteEntryLocked s fullKey e) of
                 (Some err, s2) \<Rightarrow> ((0, Some err), s2)
               | (None, s2) \<Rightarrow> ((1, None), s2))
            else
              (case ParseInt (value' e) of
                 None \<Rightarrow> ((0, Some ErrInvalidCounter), s)
               | Some c \<Rightarrow>
                   (let count = int64_incr c in
                    case setLocked now NamespaceRateLimits partnerID (FormatInt count) ttl s of
                      (Some err, s2) \<Rightarrow> ((0, Some err), s2)
                    | (None, s2) \<Rightarrow> ((count, None), s2))))"

definition cleanup :: "time \<Rightarrow> MemoryStore \<Rightarrow> MemoryStore" where
  "cleanup now s =
     (let toDelete = map fst (filter (\<lambda>(fk, e). expired now e) (data s))
      in fold (\<lambda>fullKey s. case map_of (data s) fullKey of
                              Some e \<Rightarrow> deleteEntryLocked s fullKey e
                            | None \<Rightarrow> s) toDelete s)"

text \<open>The sum of the recorded sizes of the entries the map holds.\<close>

definition total_size :: "MemoryStore \<Rightarrow> int" where
  "total_size s = sum_list (map (\<lambda>(fk, e). size' e) (data s))"

text \<open>
  The list and the map agree: keys and element identities are distinct, every element of the
  list is the element its key's entry points to, and every identity in use is below the next
  one.
\<close>

definition store_ok :: "MemoryStore \<Rightarrow> bool" where
  "store_ok s =
     (distinct (map fst (data s)) \<and> distinct (map fst (lru s))
      \<and> list_all (\<lambda>el. fst el < nextNode s \<and>
            (case map_of (data s) (snd el) of
               None \<Rightarrow> False | Some e \<Rightarrow> lruNode e = fst el)) (lru s))"

text \<open>
  Example stores: a store of 200 bytes after a first \<^verbatim>\<open>Set\<close>, and after a second
  \<^verbatim>\<open>Set\<close> of the same key whose value does not fit; and the default store with 128 live
  keys in the namespace \<^verbatim>\<open>system\<close>, whose quota is 128 (key number \<open>i\<close> is \<open>i + 1\<close>
  letters a, its value is \<^verbatim>\<open>v\<close>).
\<close>

definition small_store :: MemoryStore where
  "small_store = NewMemoryStoreWithConfig 200 256 1024"

definition after_first_set :: MemoryStore where
  "after_first_set = snd (Set 0 ''test'' ''k'' (replicate 10 (CHR ''a'')) 0 small_store)"

definition after_failed_set :: MemoryStore where
  "after_failed_set = snd (Set 0 ''test'' ''k'' (replicate 200 (CHR ''a'')) 0 after_first_set)"

definition system_key :: "nat \<Rightarrow> string" where
  "system_key i = replicate (Suc i) (CHR ''a'')"

definition system_entry :: "nat \<Rightarrow> entry" where
  "system_entry i =
     \<lparr>namespace = NamespaceSystem, key = system_key i, value' = ''v'', expiresAt = None,
      size' = 73 + int i, lruNode = i\<rparr>"

definition full_system_store :: MemoryStore where
  "full_system_store =
     NewMemoryStore
       \<lparr>data := map (\<lambda>i. (makeKey NamespaceSystem (system_key i), system_entry i)) [0..<128],
        lru := rev (map (\<lambda>i. (i, makeKey NamespaceSystem (system_key i))) [0..<128]),
        nextNode := 128,
        currentBytes := sum_list (map (\<lambda>i. 73 + int i) [0..<128])\<rparr>"

text \<open>
  The sum of the recorded sizes of an association list, and the state of the store while
  \<^verbatim>\<open>Set\<close> replaces the entry \<open>old\<close> of the key \<open>fk\<close>: the entry is in the map, its
  element is off the list.
\<close>

definition sizes :: "(string \<times> entry) list \<Rightarrow> int" where
  "sizes xs = sum_list (map (\<lambda>(fk, e). size' e) xs)"

definition replacing :: "string \<Rightarrow> entry \<Rightarrow> MemoryStore \<Rightarrow> bool" where
  "replacing fk old s =
     (distinct (map fst (data s)) \<and> distinct (map fst (lru s))
      \<and> map_of (data s) fk = Some old
      \<and> list_all (\<lambda>el. snd el \<noteq> fk \<and> fst el < nextNode s \<and>
            (case map_of (data s) (snd el) of
               None \<Rightarrow> False | Some e \<Rightarrow> lruNode e = fst el)) (lru s))"

section \<open>Pathfinder (breaker.go, second file)\<close>

record Fees =
  RouterBps :: int
  TradingFees :: decimal
  EstOutFee :: decimal

record Route =
  Hops :: "Hop list"
  TotalFees :: Fees
  PriceImpact :: decimal

definition MaxHops :: nat where
  "MaxHops = 3"

text \<open>What a Go function hands back: a value, or a panic.\<close>

datatype 'a outcome = Returns 'a | Panics

text \<open>
  An edge; its back-pointers \<^verbatim>\<open>pool\<close> and \<^verbatim>\<open>offer\<close> are the index into the snapshot, or
  \<open>None\<close> for nil.
\<close>

record edge =
  to :: string
  weight :: decimal
  edge_pool :: "nat option"
  edge_offer :: "nat option"

text \<open>
  A queue entry. The field \<^verbatim>\<open>index\<close> is written by \<^verbatim>\<open>Swap\<close>, \<^verbatim>\<open>Push\<close> and
  \<^verbatim>\<open>Pop\<close> and read nowhere; it is left out.
\<close>

record node =
  asset :: string
  cost :: decimal

type_synonym priorityQueue = "node list"

text \<open>
  The queue is a slice used as a binary heap by \<^verbatim>\<open>container/heap\<close>: \<^verbatim>\<open>heap.Push\<close>
  appends and sifts up, \<^verbatim>\<open>heap.Pop\<close> swaps the root with the last entry, sifts the new
  root down in the first \<open>n\<close> entries and takes the last entry off. \<open>up\<close> and \<open>down\<close> are
  the library's loops; the parent of \<open>j\<close> is \<open>(j - 1) / 2\<close>, which is 0 for \<open>j = 0\<close> in Go as
  it is with the truncating subtraction here.
\<close>

definition Less :: "priorityQueue \<Rightarrow> nat \<Rightarrow> nat \<Rightarrow> bool" where
  "Less pq i j = (cost (pq ! i) < cost (pq ! j))"

definition Swap :: "priorityQueue \<Rightarrow> nat \<Rightarrow> nat \<Rightarrow> priorityQueue" where
  "Swap pq i j = pq[i := pq ! j, j := pq ! i]"

function up :: "priorityQueue \<Rightarrow> nat \<Rightarrow> priorityQueue" where
  "up pq j =
     (let i = (j - 1) div 2
      in if i = j \<or> \<not> Less pq j i then pq else up (Swap pq i j) i)"
  by pat_completeness auto
termination
  by (relation "measure (\<lambda>(pq, j). j)") auto

declare up.simps [simp del]

function down :: "priorityQueue \<Rightarrow> nat \<Rightarrow> nat \<Rightarrow> priorityQueue" where
  "down pq i n =
     (let j1 = 2 * i + 1
      in if j1 \<ge> n then pq
         else let j = (if j1 + 1 < n \<and> Less pq (j1 + 1) j1 then j1 + 1 else j1)
              in if \<not> Less pq j i then pq else down (Swap pq i j) j n)"
  by pat_completeness auto
termination
  by (relation "measure (\<lambda>(pq, i, n). n - i)") auto

declare down.simps [simp del]

definition heap_Push :: "priorityQueue \<Rightarrow> node \<Rightarrow> priorityQueue" where
  "heap_Push pq x = up (pq @ [x]) (length (pq @ [x]) - 1)"

definition heap_Pop :: "priorityQueue \<Rightarrow> node \<times> priorityQueue" where
  "heap_Pop pq =
     (let n = length pq - 1;
          pq1 = down (Swap pq 0 n) 0 n
      in (last pq1, butlast pq1))"

text \<open>
  The graph is a map from a node to its edges in insertion order, here an association list;
  a missing key reads as the empty slice.
\<close>

type_synonym graph = "(string \<times> edge list) list"

definition edges_of :: "graph \<Rightarrow> string \<Rightarrow> edge list" where
  "edges_of g k = (case map_of g k of None \<Rightarrow> [] | Some es \<Rightarrow> es)"

definition add_edge :: "graph \<Rightarrow> string \<Rightarrow> edge \<Rightarrow> graph" where
  "add_edge g k e = AList.update k (edges_of g k @ [e]) g"

text \<open>
  The body of the loop over the pools (with the index of the pool), and of the loop over
  the offers. The divisor 10000 is not zero, so \<^verbatim>\<open>Div\<close> does not panic here.
\<close>

definition add_pool :: "graph \<Rightarrow> nat \<times> AMMPool \<Rightarrow> graph" where
  "add_pool g ip =
     (let asset1 = String (Asset1 (snd ip));
          asset2 = String (Asset2 (snd ip));
          feeMultiplier = 1 - DivRound (of_int (TradingFeeBps (snd ip))) 10000 DivisionPrecision;
          g1 = add_edge g asset1
                 \<lparr>to = asset2, weight = feeMultiplier, edge_pool = Some (fst ip), edge_offer = None\<rparr>
      in add_edge g1 asset2
           \<lparr>to = asset1, weight = feeMultiplier, edge_pool = Some (fst ip), edge_offer = None\<rparr>)"

definition add_offer :: "graph \<Rightarrow> nat \<times> Offer \<Rightarrow> graph" where
  "add_offer g io =
     add_edge g (String (TakerPays (snd io)))
       \<lparr>to = String (TakerGets (snd io)), weight = Quality (snd io), edge_pool = None,
        edge_offer = Some (fst io)\<rparr>"

definition buildGraph :: "AMMPool list \<Rightarrow> Offer list \<Rightarrow> graph" where
  "buildGraph pools offers =
     foldl add_offer (foldl add_pool [] (enumerate 0 pools)) (enumerate 0 offers)"

text \<open>\<^verbatim>\<open>decimal.NewFromFloat(math.MaxFloat64)\<close>\<close>

definition MaxFloat64 :: decimal where
  "MaxFloat64 = 17976931348623157 * 10 ^ 292"

text \<open>
  The local variables of \<^verbatim>\<open>dijkstra\<close>. A missing key of \<open>dist\<close> reads as the zero
  decimal, a missing key of \<open>prev\<close> as the empty string, a missing key of \<open>visited\<close> as
  false.
\<close>

record search =
  dist :: "string \<Rightarrow> decimal option"
  prev :: "string \<Rightarrow> string option"
  visited :: "string \<Rightarrow> bool"
  pq :: priorityQueue

definition dist_of :: "search \<Rightarrow> string \<Rightarrow> decimal" where
  "dist_of st k = (case dist st k of None \<Rightarrow> 0 | Some d \<Rightarrow> d)"

text \<open>The body of the loop over the edges of the current node.\<close>

definition relax :: "node \<Rightarrow> search \<Rightarrow> edge \<Rightarrow> search" where
  "relax current st e =
     (if visited st (to e) then st
      else let newCost = cost current + (1 - weight e)
           in if newCost < dist_of st (to e)
              then st\<lparr>dist := (dist st)(to e \<mapsto> newCost),
                      prev := (prev st)(to e \<mapsto> asset current),
                      pq := heap_Push (pq st) \<lparr>asset = to e, cost = newCost\<rparr>\<rparr>
              else st)"

text \<open>
  The main loop ends: an iteration takes one entry off the queue, and it pushes at most one
  entry for each edge of a node it visits, which it does once for each node.
\<close>

definition unvisited_edges :: "graph \<Rightarrow> search \<Rightarrow> nat" where
  "unvisited_edges g st =
     sum_list (map (\<lambda>(k, es). if visited st k then 0 else length es) g)"


lemma length_Swap [simp]: "length (Swap q i j) = length q"
  by (simp add: Swap_def)

lemma length_up [simp]: "length (up q j) = length q"
proof (induction q j rule: up.induct)
  case (1 q j)
  then show ?case
    by (subst up.simps) (simp add: Let_def)
qed

lemma length_down [simp]: "length (down q i n) = length q"
proof (induction q i n rule: down.induct)
  case (1 q i n)
  then show ?case
    by (subst down.simps) (simp add: Let_def)
qed

lemma length_heap_Push [simp]: "length (heap_Push q x) = Suc (length q)"
  by (simp add: heap_Push_def)

lemma length_heap_Pop: "length (snd (heap_Pop q)) = length q - 1"
  by (simp add: heap_Pop_def Let_def)

lemma visited_relax [simp]: "visited (relax current st e) = visited st"
  by (simp add: relax_def Let_def)

lemma visited_foldl_relax [simp]: "visited (foldl (relax current) st es) = visited st"
  by (induction es arbitrary: st) simp_all

lemma length_pq_relax: "length (pq (relax current st e)) \<le> Suc (length (pq st))"
  by (simp add: relax_def Let_def)

lemma length_pq_foldl_relax:
  "length (pq (foldl (relax current) st es)) \<le> length (pq st) + length es"
proof (induction es arbitrary: st)
  case Nil
  then show ?case by simp
next
  case (Cons e es)
  have "length (pq (foldl (relax current) (relax current st e) es))
      \<le> length (pq (relax current st e)) + length es"
    by (rule Cons.IH)
  then show ?case
    using length_pq_relax[of current st e] by simp
qed

lemma unvisited_edges_visit:
  assumes "\<not> visited st k"
  shows "unvisited_edges g (st\<lparr>visited := (visited st)(k := True)\<rparr>) + length (edges_of g k)
      \<le> unvisited_edges g st"
  using assms
proof (induction g)
  case Nil
  then show ?case by (simp add: unvisited_edges_def edges_of_def)
next
  case (Cons x g)
  obtain k' es where x: "x = (k', es)" by (cases x)
  have mono: "unvisited_edges g (st\<lparr>visited := (visited st)(k := True)\<rparr>) \<le> unvisited_edges g st"
    unfolding unvisited_edges_def by (rule sum_list_mono) auto
  show ?case
  proof (cases "k' = k")
    case True
    then show ?thesis
      using mono x Cons.prems by (simp add: unvisited_edges_def edges_of_def)
  next
    case False
    then show ?thesis
      using Cons x by (simp add: unvisited_edges_def edges_of_def)
  qed
qed

lemma unvisited_edges_cong:
  "visited st' = visited st \<Longrightarrow> unvisited_edges g st' = unvisited_edges g st"
  by (simp add: unvisited_edges_def)

function dijkstra_loop :: "graph \<Rightarrow> string \<Rightarrow> search \<Rightarrow> search" where
  "dijkstra_loop g end' st =
     (if pq st = [] then st
      else
        let current = fst (heap_Pop (pq st));
            st1 = st\<lparr>pq := snd (heap_Pop (pq st))\<rparr>
        in if visited st1 (asset current) then dijkstra_loop g end' st1
           else
             let st2 = st1\<lparr>visited := (visited st1)(asset current := True)\<rparr>
             in if asset current = end' then st2
                else dijkstra_loop g end'
                       (foldl (relax current) st2 (edges_of g (asset current))))"
  by pat_completeness auto
termination
proof (relation "measure (\<lambda>(g, e, st). length (pq st) + unvisited_edges g st)", goal_cases)
  case 1
  show ?case by simp
next
  case (2 g end' st current st1)
  then show ?case
    by (simp add: length_heap_Pop unvisited_edges_def)
next
  case (3 g end' st current st1 st2)
  let ?es = "edges_of g (asset current)"
  have nv: "\<not> visited st (asset current)"
    using 3 by simp
  have a: "length (pq (foldl (relax current) st2 ?es)) \<le> length (pq st2) + length ?es"
    by (rule length_pq_foldl_relax)
  have b: "length (pq st2) = length (pq st) - 1"
    using 3 by (simp add: length_heap_Pop)
  have c: "unvisited_edges g (foldl (relax current) st2 ?es) = unvisited_edges g st2"
    by (rule unvisited_edges_cong) simp
  have "unvisited_edges g st2 = unvisited_edges g (st\<lparr>visited := (visited st)(asset current := True)\<rparr>)"
    by (rule unvisited_edges_cong) (use 3 in simp)
  then have d: "unvisited_edges g st2 + length ?es \<le> unvisited_edges g st"
    using unvisited_edges_visit[OF nv, of g] by simp
  have pos: "1 \<le> length (pq st)"
    using 3 by (cases "pq st") simp_all
  have "length (pq (foldl (relax current) st2 ?es)) + unvisited_edges g (foldl (relax current) st2 ?es)
      < length (pq st) + unvisited_edges g st"
    using a b c d pos by linarith
  then show ?case
    by simp
qed

declare dijkstra_loop.simps [simp del]

text \<open>
  The loop that recovers the path, \<^verbatim>\<open>for at := end; at != ""; at = prev[at]\<close>, which
  prepends \<open>at\<close> and stops after the start node. On an arbitrary \<open>prev\<close> it need not end;
  \<open>None\<close> is the run that does not.
\<close>

partial_function (option) walk ::
  "(string \<Rightarrow> string option) \<Rightarrow> string \<Rightarrow> string \<Rightarrow> string list \<Rightarrow> string list option"
where
  "walk prv start node' path =
     (if node' = [] then Some path
      else if node' = start then Some (node' # path)
      else walk prv start (case prv node' of None \<Rightarrow> [] | Some p \<Rightarrow> p) (node' # path))"

declare walk.simps [code]

text \<open>
  \<^verbatim>\<open>dijkstra\<close>: the path is \<open>None\<close> for nil. \<^verbatim>\<open>heap.Init\<close> on the empty queue does
  nothing.
\<close>

definition dijkstra ::
  "graph \<Rightarrow> string \<Rightarrow> string \<Rightarrow> (string list option \<times> decimal) option"
where
  "dijkstra g start end' =
     (let dist0 = map_of (map (\<lambda>(k, es). (k, MaxFloat64)) g);
          st0 = \<lparr>dist = dist0(start \<mapsto> 0), prev = Map.empty, visited = (\<lambda>k. False),
                 pq = heap_Push [] \<lparr>asset = start, cost = 0\<rparr>\<rparr>;
          st = dijkstra_loop g end' st0
      in if prev st end' = None \<and> start \<noteq> end' then Some (None, 0)
         else case walk (prev st) start end' [] of
                None \<Rightarrow> None
              | Some path \<Rightarrow> Some (Some path, dist_of st end'))"


text \<open>
  \<^verbatim>\<open>findHop\<close>: the first pool that joins the two nodes in either direction, else the
  first offer from the one to the other, else nil.
\<close>

fun findHop_pools :: "AMMPool list \<Rightarrow> string \<Rightarrow> string \<Rightarrow> decimal \<Rightarrow> Hop outcome option" where
  "findHop_pools [] from to' amountIn = None"
| "findHop_pools (p # ps) from to' amountIn =
     (if String (Asset1 p) = from \<and> String (Asset2 p) = to' then
        Some (case calculateAMMOutput p amountIn True of
                None \<Rightarrow> Panics
              | Some amountOut \<Rightarrow>
                  Returns \<lparr>Type = amm, HopIn = Asset1 p, HopOut = Asset2 p,
                           AmountIn = amountIn, AmountOut = amountOut\<rparr>)
      else if String (Asset2 p) = from \<and> String (Asset1 p) = to' then
        Some (case calculateAMMOutput p amountIn False of
                None \<Rightarrow> Panics
              | Some amountOut \<Rightarrow>
                  Returns \<lparr>Type = amm, HopIn = Asset2 p, HopOut = Asset1 p,
                           AmountIn = amountIn, AmountOut = amountOut\<rparr>)
      else findHop_pools ps from to' amountIn)"

fun findHop_offers :: "Offer list \<Rightarrow> string \<Rightarrow> string \<Rightarrow> decimal \<Rightarrow> Hop option" where
  "findHop_offers [] from to' amountIn = None"
| "findHop_offers (x # xs) from to' amountIn =
     (if String (TakerPays x) = from \<and> String (TakerGets x) = to' then
        Some \<lparr>Type = orderbook, HopIn = TakerPays x, HopOut = TakerGets x,
              AmountIn = amountIn, AmountOut = amountIn * Quality x\<rparr>
      else findHop_offers xs from to' amountIn)"

definition findHop ::
  "AMMPool list \<Rightarrow> Offer list \<Rightarrow> string \<Rightarrow> string \<Rightarrow> decimal \<Rightarrow> Hop option outcome"
where
  "findHop pools offers from to' amountIn =
     (case findHop_pools pools from to' amountIn of
        Some Panics \<Rightarrow> Panics
      | Some (Returns hop) \<Rightarrow> Returns (Some hop)
      | None \<Rightarrow> Returns (findHop_offers offers from to' amountIn))"

text \<open>The loop of \<^verbatim>\<open>buildRoute\<close> over the adjacent pairs of the path.\<close>

fun buildHops ::
  "AMMPool list \<Rightarrow> Offer list \<Rightarrow> string list \<Rightarrow> decimal \<Rightarrow> Hop list option outcome"
where
  "buildHops pools offers (a # b # path) currentAmount =
     (case findHop pools offers a b currentAmount of
        Panics \<Rightarrow> Panics
      | Returns None \<Rightarrow> Returns None
      | Returns (Some hop) \<Rightarrow>
          (case buildHops pools offers (b # path) (AmountOut hop) of
             Panics \<Rightarrow> Panics
           | Returns None \<Rightarrow> Returns None
           | Returns (Some hops) \<Rightarrow> Returns (Some (hop # hops))))"
| "buildHops pools offers path currentAmount = Returns (Some [])"

definition buildRoute ::
  "AMMPool list \<Rightarrow> Offer list \<Rightarrow> string list \<Rightarrow> decimal \<Rightarrow> Route option outcome"
where
  "buildRoute pools offers path amount =
     (if length path < 2 then Returns None
      else case buildHops pools offers path amount of
             Panics \<Rightarrow> Panics
           | Returns None \<Rightarrow> Returns None
           | Returns (Some hops) \<Rightarrow>
               Returns (Some \<lparr>Hops = hops,
                               TotalFees = \<lparr>RouterBps = 0, TradingFees = 0, EstOutFee = 0\<rparr>,
                               PriceImpact = 0\<rparr>))"

text \<open>
  \<^verbatim>\<open>FindBestRoute\<close>: \<open>Inl\<close> is the error, \<open>Inr\<close> the route; \<open>None\<close> would be a
  run of the path recovery that does not end.
\<close>

definition FindBestRoute ::
  "AMMPool list \<Rightarrow> Offer list \<Rightarrow> Asset \<Rightarrow> Asset \<Rightarrow> decimal \<Rightarrow> (error + Route) outcome option"
where
  "FindBestRoute pools offers in' out amount =
     (case dijkstra (buildGraph pools offers) (String in') (String out) of
        None \<Rightarrow> None
      | Some (None, c) \<Rightarrow> Some (Returns (Inl ErrNoRoute))
      | Some (Some path, c) \<Rightarrow>
          if length path > MaxHops + 1 then Some (Returns (Inl ErrNoRoute))
          else (case buildRoute pools offers path amount of
                  Panics \<Rightarrow> Some Panics
                | Returns None \<Rightarrow> Some (Returns (Inl ErrInsufficientLiquidity))
                | Returns (Some route) \<Rightarrow> Some (Returns (Inr route))))"

text \<open>
  The heap order on the first \<open>n\<close> entries of a queue: no entry costs less than its parent.
  \<open>up_inv\<close> and \<open>down_inv\<close> are what holds of the queue while an entry is sifted up from
  \<open>j\<close>, or down from \<open>i\<close>; \<open>min_child\<close> is the child \<^verbatim>\<open>down\<close> compares the entry with.
\<close>

definition heap_ok :: "priorityQueue \<Rightarrow> nat \<Rightarrow> bool" where
  "heap_ok q n = (\<forall>j. 0 < j \<and> j < n \<longrightarrow> cost (q ! ((j - 1) div 2)) \<le> cost (q ! j))"

definition parent :: "nat \<Rightarrow> nat" where
  "parent j = (j - 1) div 2"

definition up_inv :: "priorityQueue \<Rightarrow> nat \<Rightarrow> nat \<Rightarrow> bool" where
  "up_inv q j n =
     ((\<forall>k. 0 < k \<and> k < n \<and> k \<noteq> j \<longrightarrow> cost (q ! parent k) \<le> cost (q ! k))
      \<and> (\<forall>k. 0 < k \<and> k < n \<and> parent k = j \<and> 0 < j \<longrightarrow>
            cost (q ! parent j) \<le> cost (q ! k)))"

definition down_inv :: "priorityQueue \<Rightarrow> nat \<Rightarrow> nat \<Rightarrow> bool" where
  "down_inv q i n =
     ((\<forall>k. 0 < k \<and> k < n \<and> parent k \<noteq> i \<longrightarrow> cost (q ! parent k) \<le> cost (q ! k))
      \<and> (\<forall>k. 0 < k \<and> k < n \<and> parent k = i \<and> 0 < i \<longrightarrow>
            cost (q ! parent i) \<le> cost (q ! k)))"

definition min_child :: "priorityQueue \<Rightarrow> nat \<Rightarrow> nat \<Rightarrow> nat" where
  "min_child q i n =
     (if 2 * i + 1 + 1 < n \<and> Less q (2 * i + 1 + 1) (2 * i + 1) then 2 * i + 1 + 1
      else 2 * i + 1)"

text \<open>
  Three entries of equal cost pushed in the order A, B, C; and a snapshot in which the nodes
  A, B and C are reached from S at equal cost, and E from B and from C at equal cost.
\<close>

definition tie_queue :: priorityQueue where
  "tie_queue =
     heap_Push (heap_Push (heap_Push [] \<lparr>asset = ''A'', cost = 3 / 1000\<rparr>)
       \<lparr>asset = ''B'', cost = 3 / 1000\<rparr>) \<lparr>asset = ''C'', cost = 3 / 1000\<rparr>"

definition tie_pool :: "string \<Rightarrow> string \<Rightarrow> AMMPool" where
  "tie_pool a b =
     \<lparr>Asset1 = \<lparr>Currency = a, Issuer = []\<rparr>, Asset2 = \<lparr>Currency = b, Issuer = []\<rparr>,
      Asset1Reserve = 1000, Asset2Reserve = 1000, TradingFeeBps = 30, LPToken = [],
      Account = []\<rparr>"

definition tie_pools :: "AMMPool list" where
  "tie_pools =
     [tie_pool ''S'' ''A'', tie_pool ''S'' ''B'', tie_pool ''S'' ''C'', tie_pool ''B'' ''E'',
      tie_pool ''C'' ''E'']"

text \<open>
  What the properties of the route search are stated with. A hop list \<open>follows\<close> a node
  path when its hops join the adjacent nodes of the path, by canonical string, and each hop
  takes in what the previous one gives out. \<open>chain\<close> holds of a node from which the
  \<open>prev\<close> links lead to the start node through visited nodes. \<open>search_inv\<close> and
  \<open>prev_nonempty\<close> are what holds of the local variables of \<^verbatim>\<open>dijkstra\<close> at
  every turn of its loop, \<open>initial_search\<close> is their value before the loop.
\<close>

fun follows :: "Hop list \<Rightarrow> string list \<Rightarrow> decimal \<Rightarrow> bool" where
  "follows [] path amt = (length path \<le> 1)"
| "follows (h # hs) path amt =
     (case path of
        a # b # rest \<Rightarrow>
          String (HopIn h) = a \<and> String (HopOut h) = b \<and> AmountIn h = amt
          \<and> follows hs (b # rest) (AmountOut h)
      | _ \<Rightarrow> False)"

inductive chain :: "(string \<Rightarrow> bool) \<Rightarrow> (string \<Rightarrow> string option) \<Rightarrow> string \<Rightarrow> string \<Rightarrow> bool"
  for V :: "string \<Rightarrow> bool" and prv :: "string \<Rightarrow> string option" and start :: string
where
  chain_start: "V start \<Longrightarrow> chain V prv start start"
| chain_step: "V x \<Longrightarrow> prv x = Some y \<Longrightarrow> chain V prv start y \<Longrightarrow> chain V prv start x"

definition search_inv :: "string \<Rightarrow> search \<Rightarrow> bool" where
  "search_inv start st =
     ((\<forall>x. visited st x \<longrightarrow> chain (visited st) (prev st) start x)
      \<and> (\<forall>x y. prev st x = Some y \<longrightarrow> visited st y)
      \<and> (\<forall>n \<in> set (pq st). asset n = start \<or> prev st (asset n) \<noteq> None))"

definition prev_nonempty :: "search \<Rightarrow> bool" where
  "prev_nonempty st = (\<forall>x y. prev st x = Some y \<longrightarrow> y \<noteq> [])"

definition initial_search :: "graph \<Rightarrow> string \<Rightarrow> search" where
  "initial_search g start =
     \<lparr>dist = (map_of (map (\<lambda>(k, es). (k, MaxFloat64)) g))(start \<mapsto> 0), prev = Map.empty,
      visited = (\<lambda>k. False), pq = heap_Push [] \<lparr>asset = start, cost = 0\<rparr>\<rparr>"

text \<open>
  A snapshot has no empty node when no asset of a pool and no \<^verbatim>\<open>TakerPays\<close> of an offer
  has the empty canonical string (an asset with neither currency nor issuer).
\<close>

definition no_empty_node :: "AMMPool list \<Rightarrow> Offer list \<Rightarrow> bool" where
  "no_empty_node pools offers =
     (list_all (\<lambda>p. String (Asset1 p) \<noteq> [] \<and> String (Asset2 p) \<noteq> []) pools
      \<and> list_all (\<lambda>x. String (TakerPays x) \<noteq> []) offers)"

text \<open>
  Snapshots for the examples: a chain of four pools from A to E; three pools A - "", "" - B,
  B - C, where the middle node has the empty canonical string; and the routes that
  \<^verbatim>\<open>FindBestRoute\<close> returns from S to E over \<open>tie_pools\<close> and from A to C over
  \<open>gap_pools\<close>.
\<close>

definition asset_of :: "string \<Rightarrow> Asset" where
  "asset_of c = \<lparr>Currency = c, Issuer = []\<rparr>"

definition chain_pools :: "AMMPool list" where
  "chain_pools =
     [tie_pool ''A'' ''B'', tie_pool ''B'' ''C'', tie_pool ''C'' ''D'', tie_pool ''D'' ''E'']"

definition gap_pools :: "AMMPool list" where
  "gap_pools = [tie_pool ''A'' [], tie_pool [] ''B'', tie_pool ''B'' ''C'']"

definition tie_route :: Route where
  "tie_route =
     \<lparr>Hops = [\<lparr>Type = amm, HopIn = asset_of ''S'', HopOut = asset_of ''C'', AmountIn = 10,
                 AmountOut = 9871580343970613 / 1000000000000000\<rparr>,
               \<lparr>Type = amm, HopIn = asset_of ''C'', HopOut = asset_of ''E'',
                 AmountIn = 9871580343970613 / 1000000000000000,
                 AmountOut = 4873022679871713 / 500000000000000\<rparr>],
      TotalFees = \<lparr>RouterBps = 0, TradingFees = 0, EstOutFee = 0\<rparr>, PriceImpact = 0\<rparr>"

definition gap_route :: Route where
  "gap_route =
     \<lparr>Hops = [\<lparr>Type = amm, HopIn = asset_of ''B'', HopOut = asset_of ''C'', AmountIn = 10,
                 AmountOut = 9871580343970613 / 1000000000000000\<rparr>],
      TotalFees = \<lparr>RouterBps = 0, TradingFees = 0, EstOutFee = 0\<rparr>, PriceImpact = 0\<rparr>"

section \<open>Properties of the validator\<close>

lemma ValidateAsset_spec:
  "ValidateAsset a =
     (if structural_error a then Some ErrInvalidAsset
      else if address_failure a then Some ErrInvalidAddress else None)"
  by (auto simp: ValidateAsset_def structural_error_def address_failure_def
      IsValidXRPLAddress_def Let_def)

text \<open>
  C9. For every quote request, the validator applies the checks amount > 0, amount \<le> 1e18,
  input asset, output asset, same asset in this order and returns the rejection of the first
  violated check: InvalidAmount, AmountTooLarge, InvalidAsset for a structural asset error,
  InvalidAddress for an issuer that misses the address pattern after white-space trimming,
  SameAssets for equal canonical strings. A request that violates no check is admitted.
\<close>

theorem ValidateQuoteRequest_first_violation:
  "ValidateQuoteRequest req = first_violation (validation_checks req)"
  by (simp add: ValidateQuoteRequest_def validation_checks_def ValidateAsset_spec
      not_less not_le)


theorem ValidateQuoteRequest_first_violation_witness:
  "first_violation (validation_checks
      \<lparr>In = \<lparr>Currency = ''XRP'', Issuer = []\<rparr>,
       Out = \<lparr>Currency = ''USD'', Issuer = '' rvYAfWj5gh67oV6fW32ZzP3Aw4Eubs59B ''\<rparr>,
       Amount = 100\<rparr>) = None
   \<and> first_violation (validation_checks
      \<lparr>In = \<lparr>Currency = ''XRP'', Issuer = []\<rparr>,
       Out = \<lparr>Currency = ''USD'', Issuer = ''rvYAfWj5gh67oV6fW32ZzP3Aw4Eubs59B!''\<rparr>,
       Amount = 100\<rparr>) = Some ErrInvalidAddress"
proof -
  have a: "ValidateQuoteRequest
      \<lparr>In = \<lparr>Currency = ''XRP'', Issuer = []\<rparr>,
       Out = \<lparr>Currency = ''USD'', Issuer = '' rvYAfWj5gh67oV6fW32ZzP3Aw4Eubs59B ''\<rparr>,
       Amount = 100\<rparr> = None"
    by code_simp
  have b: "ValidateQuoteRequest
      \<lparr>In = \<lparr>Currency = ''XRP'', Issuer = []\<rparr>,
       Out = \<lparr>Currency = ''USD'', Issuer = ''rvYAfWj5gh67oV6fW32ZzP3Aw4Eubs59B!''\<rparr>,
       Amount = 100\<rparr> = Some ErrInvalidAddress"
    by code_simp
  show ?thesis
    using a b ValidateQuoteRequest_first_violation by metis
qed

section \<open>Properties of the AMM hop evaluator\<close>

lemma floor_half: "\<lfloor>(1::rat) / 2\<rfloor> = 0"
  by (simp add: floor_eq_iff)

lemma round_half_away_of_int: "round_half_away (of_int n) = n"
proof -
  have a: "\<lfloor>rat_of_int n + 1 / 2\<rfloor> = n"
    by (simp add: floor_eq_iff)
  have b: "\<lfloor>- rat_of_int n + 1 / 2\<rfloor> = - n"
    using floor_eq_iff[of "- rat_of_int n + 1 / 2" "- n"] by simp
  show ?thesis
    unfolding round_half_away_def using a b by auto
qed

lemma round_half_away_mono: "q \<le> q' \<Longrightarrow> round_half_away q \<le> round_half_away q'"
  unfolding round_half_away_def
  by (auto simp: floor_mono) linarith

lemma round16_mono: "q \<le> q' \<Longrightarrow> round16 q \<le> round16 q'"
  unfolding round16_def
  by (simp add: round_half_away_mono divide_right_mono)

lemma Div_round16: "d2 \<noteq> 0 \<Longrightarrow> Div d d2 = Some (round16 (d / d2))"
  by (simp add: Div_def DivRound_def DivisionPrecision_def round16_def)

text \<open>A fee in basis points has four decimal places, so its division by 10000 is exact.\<close>

lemma fee_Div: "Div (of_int f) 10000 = Some (of_int f / 10000)"
proof -
  have "rat_of_int f / 10000 * 10 ^ 16 = of_int (f * 10 ^ 12)"
    by simp
  then have "round_half_away (rat_of_int f / 10000 * 10 ^ 16) = f * 10 ^ 12"
    using round_half_away_of_int by presburger
  then show ?thesis
    by (simp add: Div_def DivRound_def DivisionPrecision_def)
qed

lemma quotient_mono:
  fixes t t' Ri Ro :: rat
  assumes "0 \<le> t" "t \<le> t'" "0 < Ri" "0 \<le> Ro"
  shows "t * Ro / (Ri + t) \<le> t' * Ro / (Ri + t')"
proof -
  have p: "0 < Ri + t" "0 < Ri + t'"
    using assms by auto
  have "t * Ro * (Ri + t') \<le> t' * Ro * (Ri + t)"
  proof -
    have "t * Ro * Ri \<le> t' * Ro * Ri"
      using assms by (simp add: mult_right_mono)
    then show ?thesis
      by (simp add: algebra_simps)
  qed
  then show ?thesis
    using p by (simp add: frac_le_eq divide_le_cancel field_simps)
qed

lemma calculateAMMOutput_value:
  assumes "0 < (if d then Asset1Reserve pool else Asset2Reserve pool)"
    and "0 \<le> x" and "TradingFeeBps pool \<le> 10000"
  shows "calculateAMMOutput pool x d =
     Some (round16 (amm_quotient (if d then Asset1Reserve pool else Asset2Reserve pool)
        (if d then Asset2Reserve pool else Asset1Reserve pool) (TradingFeeBps pool) x))"
proof -
  let ?m = "1 - rat_of_int (TradingFeeBps pool) / 10000"
  have m: "0 \<le> ?m"
    using assms(3) by simp
  then have "0 \<le> x * ?m"
    using assms(2) by simp
  then have nz: "(if d then Asset1Reserve pool else Asset2Reserve pool) + x * ?m \<noteq> 0"
    using assms(1) by (smt (verit) add_pos_nonneg less_irrefl)
  show ?thesis
    using nz
    by (cases d) (simp_all add: calculateAMMOutput_def fee_Div Div_round16 amm_quotient_def Let_def)
qed

lemma amm_quotient_mono_amount:
  assumes "0 < R_in" "0 \<le> R_out" "f \<le> 10000" "0 \<le> x" "x \<le> x'"
  shows "amm_quotient R_in R_out f x \<le> amm_quotient R_in R_out f x'"
proof -
  let ?m = "1 - rat_of_int f / 10000"
  have m: "0 \<le> ?m"
    using assms(3) by simp
  have "0 \<le> x * ?m" "x * ?m \<le> x' * ?m"
    using m assms(4,5) by (simp_all add: mult_right_mono)
  then show ?thesis
    unfolding amm_quotient_def using quotient_mono assms(1,2) by blast
qed

lemma amm_quotient_mono_fee:
  assumes "0 < R_in" "0 \<le> R_out" "f \<le> f'" "f' \<le> 10000" "0 \<le> x"
  shows "amm_quotient R_in R_out f' x \<le> amm_quotient R_in R_out f x"
proof -
  let ?m = "1 - rat_of_int f / 10000" and ?m' = "1 - rat_of_int f' / 10000"
  have m: "0 \<le> ?m'" "?m' \<le> ?m"
    using assms(3,4) by simp_all
  have "0 \<le> x * ?m'" "x * ?m' \<le> x * ?m"
    using m assms(5) by (simp_all add: mult_left_mono)
  then show ?thesis
    unfolding amm_quotient_def using quotient_mono assms(1,2) by blast
qed

text \<open>
  C3, as amended. For every pool with both reserves strictly positive and
  0 \<le> fee_bps \<le> 10000 and every strictly positive input amount, the output of
  calculateAMMOutput is the quotient (x (1 - fee_bps/10000) R_out) / (R_in + x (1 - fee_bps/10000))
  rounded to 16 digits after the decimal point (ties away from zero); for a fixed pool it is
  non-decreasing in the input amount and non-increasing in fee_bps.
\<close>

theorem calculateAMMOutput_rounded_monotone:
  assumes "0 < Asset1Reserve pool" and "0 < Asset2Reserve pool"
    and "0 \<le> TradingFeeBps pool" and "TradingFeeBps pool \<le> 10000" and "0 < x"
  shows "calculateAMMOutput pool x d =
       Some (round16 (amm_quotient (if d then Asset1Reserve pool else Asset2Reserve pool)
          (if d then Asset2Reserve pool else Asset1Reserve pool) (TradingFeeBps pool) x))
     \<and> (\<forall>x'. x \<le> x' \<longrightarrow>
          (\<exists>y y'. calculateAMMOutput pool x d = Some y \<and> calculateAMMOutput pool x' d = Some y'
             \<and> y \<le> y'))
     \<and> (\<forall>f. TradingFeeBps pool \<le> f \<and> f \<le> 10000 \<longrightarrow>
          (\<exists>y y'. calculateAMMOutput pool x d = Some y
             \<and> calculateAMMOutput (pool\<lparr>TradingFeeBps := f\<rparr>) x d = Some y' \<and> y' \<le> y))"
proof -
  let ?Ri = "if d then Asset1Reserve pool else Asset2Reserve pool"
  let ?Ro = "if d then Asset2Reserve pool else Asset1Reserve pool"
  have Ri: "0 < ?Ri" and Ro: "0 \<le> ?Ro"
    using assms(1,2) by auto
  have x0: "0 \<le> x"
    using assms(5) by simp
  have v: "calculateAMMOutput pool x d = Some (round16 (amm_quotient ?Ri ?Ro (TradingFeeBps pool) x))"
    using calculateAMMOutput_value[OF Ri x0 assms(4)] .
  have amount: "\<exists>y y'. calculateAMMOutput pool x d = Some y
      \<and> calculateAMMOutput pool x' d = Some y' \<and> y \<le> y'" if "x \<le> x'" for x'
  proof -
    have x'0: "0 \<le> x'"
      using that x0 by simp
    have v': "calculateAMMOutput pool x' d =
        Some (round16 (amm_quotient ?Ri ?Ro (TradingFeeBps pool) x'))"
      using calculateAMMOutput_value[OF Ri x'0 assms(4)] .
    have "round16 (amm_quotient ?Ri ?Ro (TradingFeeBps pool) x)
        \<le> round16 (amm_quotient ?Ri ?Ro (TradingFeeBps pool) x')"
      using amm_quotient_mono_amount[OF Ri Ro assms(4) x0 that] by (rule round16_mono)
    then show ?thesis
      using v v' by simp
  qed
  have fee: "\<exists>y y'. calculateAMMOutput pool x d = Some y
      \<and> calculateAMMOutput (pool\<lparr>TradingFeeBps := f\<rparr>) x d = Some y' \<and> y' \<le> y"
    if "TradingFeeBps pool \<le> f \<and> f \<le> 10000" for f
  proof -
    have f1: "TradingFeeBps pool \<le> f" and f2: "f \<le> 10000"
      using that by auto
    have "calculateAMMOutput (pool\<lparr>TradingFeeBps := f\<rparr>) x d =
        Some (round16 (amm_quotient ?Ri ?Ro f x))"
      using calculateAMMOutput_value[of d "pool\<lparr>TradingFeeBps := f\<rparr>" x] Ri x0 f2
      by (cases d) simp_all
    moreover have "round16 (amm_quotient ?Ri ?Ro f x)
        \<le> round16 (amm_quotient ?Ri ?Ro (TradingFeeBps pool) x)"
      using amm_quotient_mono_fee[OF Ri Ro f1 f2 x0] by (rule round16_mono)
    ultimately show ?thesis
      using v by simp
  qed
  show ?thesis
    using v amount fee by blast
qed

theorem calculateAMMOutput_rounded_monotone_witness:
  "calculateAMMOutput scenario_pool 100 True = Some (round16 (amm_quotient 10000 15000 30 100))
   \<and> (\<exists>y y'. calculateAMMOutput scenario_pool 100 True = Some y
        \<and> calculateAMMOutput scenario_pool 200 True = Some y' \<and> y \<le> y')
   \<and> (\<exists>y y'. calculateAMMOutput scenario_pool 100 True = Some y
        \<and> calculateAMMOutput (scenario_pool\<lparr>TradingFeeBps := 31\<rparr>) 100 True = Some y' \<and> y' \<le> y)"
proof -
  have h: "0 < Asset1Reserve scenario_pool" "0 < Asset2Reserve scenario_pool"
    "0 \<le> TradingFeeBps scenario_pool" "TradingFeeBps scenario_pool \<le> 10000" "0 < (100::rat)"
    by (simp_all add: scenario_pool_def)
  have "(100::rat) \<le> 200" and "TradingFeeBps scenario_pool \<le> 31 \<and> (31::int) \<le> 10000"
    by (simp_all add: scenario_pool_def)
  then show ?thesis
    using calculateAMMOutput_rounded_monotone[OF h, of True]
    by (auto simp: scenario_pool_def)
qed

text \<open>
  C3 as stated fails. In the specification's own scenario the output is the 16-digit
  rounding 148.0737051595591948 of the quotient 14955000/100997, not the quotient. With
  fee_bps = 10000 the output is 0 for every amount, and for a small amount the rounded
  outputs of two amounts, and of two fees, coincide: neither monotonicity is strict.
\<close>

theorem calculateAMMOutput_not_exact_not_strict:
  "calculateAMMOutput scenario_pool 100 True = Some (1480737051595591948 / 10 ^ 16)
   \<and> amm_quotient 10000 15000 30 100 = 14955000 / 100997
   \<and> (1480737051595591948 / 10 ^ 16 :: rat) \<noteq> 14955000 / 100997
   \<and> calculateAMMOutput (scenario_pool\<lparr>TradingFeeBps := 10000\<rparr>) 100 True = Some 0
   \<and> calculateAMMOutput (scenario_pool\<lparr>TradingFeeBps := 10000\<rparr>) 200 True = Some 0
   \<and> calculateAMMOutput scenario_pool (1 / 10 ^ 17) True = Some 0
   \<and> calculateAMMOutput scenario_pool (2 / 10 ^ 17) True = Some 0
   \<and> calculateAMMOutput (scenario_pool\<lparr>TradingFeeBps := 31\<rparr>) (1 / 10 ^ 17) True = Some 0"
  by code_simp

section \<open>Properties of the circuit breaker\<close>


lemma effectiveThreshold_states [simp]:
  "effectiveThreshold (cb\<lparr>states := m\<rparr>) now = effectiveThreshold cb now"
  by (simp add: effectiveThreshold_def)

lemma out_of_threshold_states [simp]:
  "out_of_threshold NFF now (cb\<lparr>states := m\<rparr>) prices price = out_of_threshold NFF now cb prices price"
  by (simp add: out_of_threshold_def split: option.splits)

lemma checkState_states [simp]:
  "checkState NFF now (cb\<lparr>states := m\<rparr>) st price = checkState NFF now cb st price"
  by (simp add: checkState_def)




























section \<open>Properties of the KV store\<close>


lemma total_size_sizes: "total_size s = sizes (data s)"
  by (simp add: total_size_def sizes_def)

lemma sizes_delete:
  "distinct (map fst xs) \<Longrightarrow> map_of xs k = Some e \<Longrightarrow>
   sizes (AList.delete k xs) = sizes xs - size' e"
proof (induction xs)
  case Nil
  then show ?case by simp
next
  case (Cons x xs)
  obtain k' e' where x: "x = (k', e')" by (cases x)
  show ?case
  proof (cases "k' = k")
    case True
    then have "k \<notin> fst ` set xs"
      using Cons.prems(1) x by simp
    then have "AList.delete k xs = xs"
      by (simp add: delete_id)
    then show ?thesis
      using True x Cons.prems(2) by (simp add: sizes_def)
  next
    case False
    then show ?thesis
      using Cons x by (simp add: sizes_def)
  qed
qed

lemma sizes_update:
  "distinct (map fst xs) \<Longrightarrow> map_of xs k = Some e \<Longrightarrow>
   sizes (AList.update k e' xs) = sizes xs - size' e + size' e'"
proof (induction xs)
  case Nil
  then show ?case by simp
next
  case (Cons x xs)
  obtain k1 e1 where x: "x = (k1, e1)" by (cases x)
  show ?case
  proof (cases "k1 = k")
    case True
    then show ?thesis
      using x Cons.prems(2) by (simp add: sizes_def)
  next
    case False
    then show ?thesis
      using Cons x by (simp add: sizes_def)
  qed
qed

lemma sizes_update_new:
  "map_of xs k = None \<Longrightarrow> sizes (AList.update k e' xs) = sizes xs + size' e'"
  by (induction xs) (auto simp: sizes_def split: if_splits)


lemma evictOldest_False: "evictOldest s = (False, s') \<Longrightarrow> s' = s"
  by (auto simp: evictOldest_def split: option.splits)

lemma evictOldest_replacing:
  assumes J: "replacing fk old s" and ev: "evictOldest s = (True, s')"
  shows "replacing fk old s'
     \<and> currentBytes s' - total_size s' = currentBytes s - total_size s
     \<and> set (map fst (data s')) \<subseteq> set (map fst (data s))
     \<and> maxBytes s' = maxBytes s \<and> nextNode s' = nextNode s"
proof -
  from ev obtain el e where ne: "lru s \<noteq> []" and el: "el = last (lru s)"
    and e: "map_of (data s) (snd el) = Some e"
    and s': "s' = (deleteEntryLocked s (snd el) e)\<lparr>evictions := evictions s + 1\<rparr>"
    by (auto simp: evictOldest_def list_Back_def split: option.splits if_splits)
  have dk: "distinct (map fst (data s))" and di: "distinct (map fst (lru s))"
    and old: "map_of (data s) fk = Some old"
    and all: "\<And>x. x \<in> set (lru s) \<Longrightarrow> snd x \<noteq> fk \<and> fst x < nextNode s \<and>
            (case map_of (data s) (snd x) of None \<Rightarrow> False | Some e \<Rightarrow> lruNode e = fst x)"
    using J by (auto simp: replacing_def list_all_iff)
  have elin: "el \<in> set (lru s)"
    using ne el by simp
  have elfk: "snd el \<noteq> fk" and eln: "lruNode e = fst el"
    using all[OF elin] e by auto
  have data': "data s' = AList.delete (snd el) (data s)"
    and lru': "lru s' = filter (\<lambda>x. fst x \<noteq> lruNode e) (lru s)"
    and cb': "currentBytes s' = currentBytes s - size' e"
    and mb': "maxBytes s' = maxBytes s" and nn': "nextNode s' = nextNode s"
    by (simp_all add: s' deleteEntryLocked_def list_Remove_def)
  have d1: "distinct (map fst (data s'))"
    unfolding data' using dk by (rule distinct_delete)
  have d2: "distinct (map fst (lru s'))"
    unfolding lru' using di by (rule distinct_map_filter)
  have o': "map_of (data s') fk = Some old"
    unfolding data' using elfk old by (simp add: delete_conv')
  have all': "snd x \<noteq> fk \<and> fst x < nextNode s' \<and>
      (case map_of (data s') (snd x) of None \<Rightarrow> False | Some e \<Rightarrow> lruNode e = fst x)"
    if "x \<in> set (lru s')" for x
  proof -
    have xin: "x \<in> set (lru s)" and xn: "fst x \<noteq> lruNode e"
      using that unfolding lru' by auto
    have a: "snd x \<noteq> fk" "fst x < nextNode s'" and b: "case map_of (data s) (snd x) of None \<Rightarrow> False | Some e \<Rightarrow> lruNode e = fst x"
      using all[OF xin] nn' by auto
    have "snd x \<noteq> snd el"
    proof
      assume "snd x = snd el"
      then have "lruNode e = fst x"
        using b e by simp
      then show False
        using xn by simp
    qed
    then have "map_of (data s') (snd x) = map_of (data s) (snd x)"
      unfolding data' by (simp add: delete_conv')
    then show ?thesis
      using a b by simp
  qed
  have sz: "total_size s' = total_size s - size' e"
    unfolding total_size_sizes data' using sizes_delete[OF dk e] .
  have sub: "set (map fst (data s')) \<subseteq> set (map fst (data s))"
    unfolding data' by (auto simp: AList.delete_eq)
  have "replacing fk old s'"
    unfolding replacing_def list_all_iff using d1 d2 o' all' by blast
  then show ?thesis
    using sz cb' sub mb' nn' by simp
qed

lemma evictUntilFits_replacing:
  "replacing fk old s \<Longrightarrow> evictUntilFits n s = (b, s') \<Longrightarrow>
   replacing fk old s'
     \<and> currentBytes s' - total_size s' = currentBytes s - total_size s
     \<and> set (map fst (data s')) \<subseteq> set (map fst (data s))
     \<and> maxBytes s' = maxBytes s \<and> nextNode s' = nextNode s
     \<and> (b \<longrightarrow> currentBytes s' + n \<le> maxBytes s')"
proof (induction n s arbitrary: b s' rule: evictUntilFits.induct)
  case (1 entrySize s)
  show ?case
  proof (cases "currentBytes s + entrySize > maxBytes s")
    case False
    then have "b = True" "s' = s"
      using "1.prems"(2) by (simp_all add: evictUntilFits.simps[of entrySize s])
    then show ?thesis
      using "1.prems"(1) False by simp
  next
    case True
    obtain ok s1 where ev: "evictOldest s = (ok, s1)"
      by (cases "evictOldest s")
    show ?thesis
    proof (cases ok)
      case False
      then have "b = False" "s' = s"
        using "1.prems"(2) True ev evictOldest_False[of s s1]
        by (simp_all add: evictUntilFits.simps[of entrySize s])
      then show ?thesis
        using "1.prems"(1) by simp
    next
      case ok: True
      have step: "replacing fk old s1
         \<and> currentBytes s1 - total_size s1 = currentBytes s - total_size s
         \<and> set (map fst (data s1)) \<subseteq> set (map fst (data s))
         \<and> maxBytes s1 = maxBytes s \<and> nextNode s1 = nextNode s"
        using evictOldest_replacing[OF "1.prems"(1)] ev ok by simp
      have rec: "evictUntilFits entrySize s1 = (b, s')"
        using "1.prems"(2) True ev ok by (simp add: evictUntilFits.simps[of entrySize s])
      have "replacing fk old s'
         \<and> currentBytes s' - total_size s' = currentBytes s1 - total_size s1
         \<and> set (map fst (data s')) \<subseteq> set (map fst (data s1))
         \<and> maxBytes s' = maxBytes s1 \<and> nextNode s' = nextNode s1
         \<and> (b \<longrightarrow> currentBytes s' + entrySize \<le> maxBytes s')"
        using "1.IH"[OF True ev[symmetric]] ok step rec by blast
      then show ?thesis
        using step by auto
    qed
  qed
qed


lemma Set_quota_iff:
  assumes "validate s ns k v = None"
  shows "fst (Set now ns k v ttl s) = Some ErrNamespaceQuota
     \<longleftrightarrow> (\<exists>quota. namespaceQuotas ns = Some quota \<and> quota \<le> live_count now s ns)"
proof -
  have "fst (setLocked now ns k v ttl s) \<noteq> Some ErrNamespaceQuota"
    by (auto simp: setLocked_def Let_def split: option.splits prod.splits bool.splits)
  then show ?thesis
    using assms
    by (auto simp: Set_def checkNamespaceQuota_def Let_def split: option.splits)
qed

lemma Set_quota_unchanged:
  "fst (Set now ns k v ttl s) = Some ErrNamespaceQuota \<Longrightarrow> snd (Set now ns k v ttl s) = s"
  by (auto simp: Set_def setLocked_def Let_def validate_def
      split: option.splits prod.splits bool.splits if_splits)

lemma setLocked_replaces:
  assumes ok: "store_ok s" and old: "map_of (data s) (makeKey ns k) = Some old"
    and res: "setLocked now ns k v ttl s = (None, s')"
  shows "map_of (data s') (makeKey ns k) =
        Some \<lparr>namespace = ns, key = k, value' = v,
              expiresAt = (if ttl > 0 then Some (now + ttl) else None),
              size' = int (length (makeKey ns k)) + int (length v) + 64,
              lruNode = nextNode s\<rparr>
     \<and> set (map fst (data s')) \<subseteq> set (map fst (data s))
     \<and> currentBytes s' - total_size s' = currentBytes s - total_size s
     \<and> currentBytes s' \<le> maxBytes s'
     \<and> store_ok s'"
proof -
  let ?fk = "makeKey ns k"
  let ?n = "int (length ?fk) + int (length v) + 64"
  let ?s1 = "s\<lparr>currentBytes := currentBytes s - size' old,
              lru := list_Remove (lruNode old) (lru s)\<rparr>"
  let ?e = "\<lparr>namespace = ns, key = k, value' = v,
              expiresAt = (if ttl > 0 then Some (now + ttl) else None),
              size' = ?n, lruNode = nextNode s\<rparr>"
  have dk: "distinct (map fst (data s))" and di: "distinct (map fst (lru s))"
    and all: "\<And>x. x \<in> set (lru s) \<Longrightarrow> fst x < nextNode s \<and>
            (case map_of (data s) (snd x) of None \<Rightarrow> False | Some e \<Rightarrow> lruNode e = fst x)"
    using ok by (auto simp: store_ok_def list_all_iff)
  have J1: "replacing ?fk old ?s1"
  proof -
    have "snd x \<noteq> ?fk \<and> fst x < nextNode ?s1 \<and>
        (case map_of (data ?s1) (snd x) of None \<Rightarrow> False | Some e \<Rightarrow> lruNode e = fst x)"
      if "x \<in> set (lru ?s1)" for x
    proof -
      have xin: "x \<in> set (lru s)" and xn: "fst x \<noteq> lruNode old"
        using that by (auto simp: list_Remove_def)
      have "snd x \<noteq> ?fk"
      proof
        assume "snd x = ?fk"
        then have "lruNode old = fst x"
          using all[OF xin] old by simp
        then show False
          using xn by simp
      qed
      then show ?thesis
        using all[OF xin] by simp
    qed
    moreover have "distinct (map fst (lru ?s1))"
      using di by (simp add: list_Remove_def distinct_map_filter)
    ultimately show ?thesis
      unfolding replacing_def list_all_iff using dk old by simp
  qed
  obtain b s2 where ev: "evictUntilFits ?n ?s1 = (b, s2)"
    by (cases "evictUntilFits ?n ?s1")
  have b: "b"
    using res old ev by (cases b) (simp_all add: setLocked_def Let_def)
  have s': "s' = s2\<lparr>lru := (nextNode s2, ?fk) # lru s2, nextNode := nextNode s2 + 1,
                    data := AList.update ?fk (?e\<lparr>lruNode := nextNode s2\<rparr>) (data s2),
                    currentBytes := currentBytes s2 + ?n\<rparr>"
    using res old ev b by (simp add: setLocked_def Let_def)
  note J2 = evictUntilFits_replacing[OF J1 ev]
  have nn: "nextNode s2 = nextNode s"
    using J2 by simp
  have dk2: "distinct (map fst (data s2))" and di2: "distinct (map fst (lru s2))"
    and old2: "map_of (data s2) ?fk = Some old"
    and all2: "\<And>x. x \<in> set (lru s2) \<Longrightarrow> snd x \<noteq> ?fk \<and> fst x < nextNode s2 \<and>
            (case map_of (data s2) (snd x) of None \<Rightarrow> False | Some e \<Rightarrow> lruNode e = fst x)"
    using J2 by (auto simp: replacing_def list_all_iff)
  have data': "data s' = AList.update ?fk ?e (data s2)"
    and lru': "lru s' = (nextNode s2, ?fk) # lru s2"
    and cb': "currentBytes s' = currentBytes s2 + ?n"
    and nn': "nextNode s' = nextNode s2 + 1"
    and mb': "maxBytes s' = maxBytes s2"
    by (simp_all add: s' nn)
  have look: "map_of (data s') ?fk = Some ?e"
    unfolding data' by (simp add: update_conv')
  have sub: "set (map fst (data s')) \<subseteq> set (map fst (data s))"
  proof -
    have kin: "?fk \<in> set (map fst (data s2))"
      using map_of_SomeD[OF old2] by force
    have "map fst (data s') = map fst (data s2)"
      unfolding data' using kin by (simp add: update_keys)
    then show ?thesis
      using J2 by simp
  qed
  have sz: "total_size s' = total_size s2 - size' old + ?n"
    unfolding total_size_sizes data' using sizes_update[OF dk2 old2, of ?e] by simp
  have diff: "currentBytes s' - total_size s' = currentBytes s - total_size s"
  proof -
    have "currentBytes s2 - total_size s2 = currentBytes ?s1 - total_size ?s1"
      using J2 by simp
    also have "\<dots> = currentBytes s - size' old - total_size s"
      by (simp add: total_size_def)
    finally show ?thesis
      using sz cb' by simp
  qed
  have fits: "currentBytes s' \<le> maxBytes s'"
    using J2 b cb' mb' by simp
  have ok': "store_ok s'"
  proof -
    have d1: "distinct (map fst (data s'))"
      unfolding data' using dk2 by (rule distinct_update)
    have "nextNode s2 \<notin> fst ` set (lru s2)"
      using all2 by fastforce
    then have d2: "distinct (map fst (lru s'))"
      unfolding lru' using di2 by simp
    have "fst x < nextNode s' \<and>
        (case map_of (data s') (snd x) of None \<Rightarrow> False | Some e \<Rightarrow> lruNode e = fst x)"
      if "x \<in> set (lru s')" for x
    proof (cases "x = (nextNode s2, ?fk)")
      case True
      then show ?thesis
        using look nn' nn by simp
    next
      case False
      then have xin: "x \<in> set (lru s2)"
        using that lru' by simp
      then have "map_of (data s') (snd x) = map_of (data s2) (snd x)"
        unfolding data' using all2[OF xin] by (simp add: update_conv')
      then show ?thesis
        using all2[OF xin] nn' by simp
    qed
    then show ?thesis
      unfolding store_ok_def list_all_iff using d1 d2 by blast
  qed
  show ?thesis
    using look sub diff fits ok' by blast
qed


text \<open>
  C7, as amended. For every valid (namespace, key, value, ttl) such that the store already
  holds an entry for namespace:key: set fails with NamespaceQuota exactly when the namespace
  has a quota and its count of live keys has reached it, although no key would be added,
  and then the store is unchanged; so the quota rejects every set, of a new key or of an
  existing one, into a namespace whose live key count has reached its quota. When the list
  and the map of the store agree and the set succeeds, the existing entry is replaced in
  place: the key maps to the new entry, no key is added, the difference between
  current_bytes and the sum of the recorded sizes is what it was, current_bytes is at most
  max_bytes, and list and map agree again.
\<close>

theorem Set_existing_key:
  assumes "validate s ns k v = None" and "map_of (data s) (makeKey ns k) = Some old"
  shows "(fst (Set now ns k v ttl s) = Some ErrNamespaceQuota
          \<longleftrightarrow> (\<exists>quota. namespaceQuotas ns = Some quota \<and> quota \<le> live_count now s ns))
     \<and> (fst (Set now ns k v ttl s) = Some ErrNamespaceQuota \<longrightarrow> snd (Set now ns k v ttl s) = s)
     \<and> (store_ok s \<and> fst (Set now ns k v ttl s) = None \<longrightarrow>
          map_of (data (snd (Set now ns k v ttl s))) (makeKey ns k) =
            Some \<lparr>namespace = ns, key = k, value' = v,
                  expiresAt = (if ttl > 0 then Some (now + ttl) else None),
                  size' = int (length (makeKey ns k)) + int (length v) + 64,
                  lruNode = nextNode s\<rparr>
          \<and> set (map fst (data (snd (Set now ns k v ttl s)))) \<subseteq> set (map fst (data s))
          \<and> currentBytes (snd (Set now ns k v ttl s)) - total_size (snd (Set now ns k v ttl s))
              = currentBytes s - total_size s
          \<and> currentBytes (snd (Set now ns k v ttl s)) \<le> maxBytes (snd (Set now ns k v ttl s))
          \<and> store_ok (snd (Set now ns k v ttl s)))"
proof (intro conjI impI)
  show "fst (Set now ns k v ttl s) = Some ErrNamespaceQuota
          \<longleftrightarrow> (\<exists>quota. namespaceQuotas ns = Some quota \<and> quota \<le> live_count now s ns)"
    using assms(1) by (rule Set_quota_iff)
next
  assume "fst (Set now ns k v ttl s) = Some ErrNamespaceQuota"
  then show "snd (Set now ns k v ttl s) = s"
    by (rule Set_quota_unchanged)
next
  assume h: "store_ok s \<and> fst (Set now ns k v ttl s) = None"
  then have "Set now ns k v ttl s = setLocked now ns k v ttl s"
    using assms(1) by (auto simp: Set_def split: option.splits)
  then have "setLocked now ns k v ttl s = (None, snd (Set now ns k v ttl s))"
    using h by (metis prod.collapse)
  with h assms(2) have r: "map_of (data (snd (Set now ns k v ttl s))) (makeKey ns k) =
        Some \<lparr>namespace = ns, key = k, value' = v,
              expiresAt = (if ttl > 0 then Some (now + ttl) else None),
              size' = int (length (makeKey ns k)) + int (length v) + 64,
              lruNode = nextNode s\<rparr>
     \<and> set (map fst (data (snd (Set now ns k v ttl s)))) \<subseteq> set (map fst (data s))
     \<and> currentBytes (snd (Set now ns k v ttl s)) - total_size (snd (Set now ns k v ttl s))
         = currentBytes s - total_size s
     \<and> currentBytes (snd (Set now ns k v ttl s)) \<le> maxBytes (snd (Set now ns k v ttl s))
     \<and> store_ok (snd (Set now ns k v ttl s))"
    using setLocked_replaces[of s ns k old now v ttl "snd (Set now ns k v ttl s)"] by blast
  from r show "map_of (data (snd (Set now ns k v ttl s))) (makeKey ns k) =
        Some \<lparr>namespace = ns, key = k, value' = v,
              expiresAt = (if ttl > 0 then Some (now + ttl) else None),
              size' = int (length (makeKey ns k)) + int (length v) + 64,
              lruNode = nextNode s\<rparr>" by blast
  from r show "set (map fst (data (snd (Set now ns k v ttl s)))) \<subseteq> set (map fst (data s))"
    by blast
  from r show "currentBytes (snd (Set now ns k v ttl s)) - total_size (snd (Set now ns k v ttl s))
         = currentBytes s - total_size s" by blast
  from r show "currentBytes (snd (Set now ns k v ttl s)) \<le> maxBytes (snd (Set now ns k v ttl s))"
    by blast
  from r show "store_ok (snd (Set now ns k v ttl s))" by blast
qed

lemma full_system_live_count: "live_count 0 full_system_store NamespaceSystem = 128"
  by (simp add: live_count_def full_system_store_def system_entry_def live_def
      filter_map comp_def)

lemma full_system_validate:
  "validate full_system_store NamespaceSystem (system_key 0) ''w'' = None"
  by (simp add: validate_def full_system_store_def NewMemoryStore_def
      NewMemoryStoreWithConfig_def NamespaceSystem_def system_key_def
      DefaultMaxKeyLength_def DefaultMaxValueSize_def)

lemma full_system_lookup:
  "map_of (data full_system_store) (makeKey NamespaceSystem (system_key 0)) = Some (system_entry 0)"
proof -
  have "[0..<128] = 0 # [1..<128]"
    by (simp add: upt_conv_Cons)
  then show ?thesis
    by (simp add: full_system_store_def)
qed

lemma full_system_rejects:
  "Set 0 NamespaceSystem (system_key 0) ''w'' 0 full_system_store =
     (Some ErrNamespaceQuota, full_system_store)"
  using full_system_validate full_system_live_count
  by (simp add: Set_def checkNamespaceQuota_def namespaceQuotas_def NamespaceSystem_def
      NamespaceQuotes_def NamespaceRateLimits_def NamespaceCircuitBreaker_def)

text \<open>
  C7 as stated fails: with 128 live keys in the namespace \<^verbatim>\<open>system\<close>, whose quota is 128,
  a valid set of a key the store already holds fails with NamespaceQuota.
\<close>

theorem Set_existing_key_rejected_by_quota:
  "validate full_system_store NamespaceSystem (system_key 0) ''w'' = None
   \<and> map_of (data full_system_store) (makeKey NamespaceSystem (system_key 0)) =
       Some (system_entry 0)
   \<and> Set 0 NamespaceSystem (system_key 0) ''w'' 0 full_system_store =
       (Some ErrNamespaceQuota, full_system_store)"
  using full_system_validate full_system_lookup full_system_rejects by simp

theorem Set_existing_key_witness:
  "fst (Set 0 NamespaceSystem (system_key 0) ''w'' 0 full_system_store) = Some ErrNamespaceQuota
   \<and> snd (Set 0 NamespaceSystem (system_key 0) ''w'' 0 full_system_store) = full_system_store
   \<and> fst (Set 0 ''test'' ''k'' ''new value'' 0 after_first_set) = None
   \<and> map_option value' (map_of (data (snd (Set 0 ''test'' ''k'' ''new value'' 0 after_first_set)))
        (makeKey ''test'' ''k'')) = Some ''new value''
   \<and> currentBytes (snd (Set 0 ''test'' ''k'' ''new value'' 0 after_first_set))
       = total_size (snd (Set 0 ''test'' ''k'' ''new value'' 0 after_first_set))"
proof -
  have q: "\<exists>quota. namespaceQuotas NamespaceSystem = Some quota
      \<and> quota \<le> live_count 0 full_system_store NamespaceSystem"
    using full_system_live_count
    by (simp add: namespaceQuotas_def NamespaceSystem_def
      NamespaceQuotes_def NamespaceRateLimits_def NamespaceCircuitBreaker_def)
  note full = Set_existing_key[OF full_system_validate full_system_lookup, of 0 0]
  have a: "fst (Set 0 NamespaceSystem (system_key 0) ''w'' 0 full_system_store) = Some ErrNamespaceQuota"
    using full q by blast
  have b: "snd (Set 0 NamespaceSystem (system_key 0) ''w'' 0 full_system_store) = full_system_store"
    using full a by blast
  have v: "validate after_first_set ''test'' ''k'' ''new value'' = None"
    by code_simp
  have l: "map_of (data after_first_set) (makeKey ''test'' ''k'') =
      Some \<lparr>namespace = ''test'', key = ''k'', value' = replicate 10 (CHR ''a''),
            expiresAt = None, size' = 80, lruNode = 0\<rparr>"
    by code_simp
  have ok: "store_ok after_first_set"
    by code_simp
  have n: "fst (Set 0 ''test'' ''k'' ''new value'' 0 after_first_set) = None"
    by code_simp
  have z: "currentBytes after_first_set - total_size after_first_set = 0"
    by code_simp
  note small = Set_existing_key[OF v l, of 0 0]
  have c: "map_option value' (map_of (data (snd (Set 0 ''test'' ''k'' ''new value'' 0 after_first_set)))
        (makeKey ''test'' ''k'')) = Some ''new value''"
    using small ok n by simp
  have d: "currentBytes (snd (Set 0 ''test'' ''k'' ''new value'' 0 after_first_set))
       = total_size (snd (Set 0 ''test'' ''k'' ''new value'' 0 after_first_set))"
    using small ok n z by simp
  show ?thesis
    using a b n c d by blast
qed

text \<open>
  C6 on the code. In a store of 200 bytes, a first set of test:k records 80 bytes. A second
  set of the same key with a value of 200 bytes subtracts the 80 bytes of the existing entry,
  finds nothing to evict and fails with MemoryLimit, leaving the entry in the map: a Get still
  returns it, the recorded sizes of the live entries sum to 80, and current_bytes is 0.
  Deleting the key then takes current_bytes to -80.
\<close>

theorem failed_Set_breaks_accounting:
  "fst (Set 0 ''test'' ''k'' (replicate 10 (CHR ''a'')) 0 small_store) = None
   \<and> currentBytes after_first_set = 80 \<and> total_size after_first_set = 80
   \<and> fst (Set 0 ''test'' ''k'' (replicate 200 (CHR ''a'')) 0 after_first_set) = Some ErrMemoryLimit
   \<and> fst (Get 0 ''test'' ''k'' after_failed_set) = Some (replicate 10 (CHR ''a''))
   \<and> total_size after_failed_set = 80
   \<and> currentBytes after_failed_set = 0
   \<and> fst (Delete ''test'' ''k'' after_failed_set) = None
   \<and> currentBytes (snd (Delete ''test'' ''k'' after_failed_set)) = - 80"
  by code_simp


section \<open>Properties of the pathfinder\<close>

lemma set_Swap: "i < length q \<Longrightarrow> j < length q \<Longrightarrow> set (Swap q i j) = set q"
  unfolding Swap_def by (rule set_swap)

lemma set_up: "j < length q \<Longrightarrow> set (up q j) = set q"
proof (induction q j rule: up.induct)
  case (1 q j)
  let ?i = "(j - 1) div 2"
  show ?case
  proof (cases "?i = j \<or> \<not> Less q j ?i")
    case True
    then show ?thesis
      by (subst up.simps) (auto simp: Let_def)
  next
    case False
    have i: "?i < length q"
      using "1.prems" by simp
    have "set (up (Swap q ?i j) ?i) = set (Swap q ?i j)"
      using "1.IH"[OF refl False] i by simp
    then show ?thesis
      using False set_Swap[OF i "1.prems"] by (subst up.simps) (simp add: Let_def)
  qed
qed

lemma down_step:
  assumes "\<not> n \<le> 2 * i + 1"
    and "j = (if 2 * i + 1 + 1 < n \<and> Less q (2 * i + 1 + 1) (2 * i + 1) then 2 * i + 1 + 1 else 2 * i + 1)"
    and "Less q j i"
  shows "down q i n = down (Swap q i j) j n"
  using assms by (subst down.simps) (auto simp: Let_def)

lemma down_stop:
  assumes "n \<le> 2 * i + 1 \<or>
    \<not> Less q (if 2 * i + 1 + 1 < n \<and> Less q (2 * i + 1 + 1) (2 * i + 1) then 2 * i + 1 + 1 else 2 * i + 1) i"
  shows "down q i n = q"
  using assms by (subst down.simps) (auto simp: Let_def)

lemma set_down: "n \<le> length q \<Longrightarrow> set (down q i n) = set q"
proof (induction q i n rule: down.induct)
  case (1 q i n)
  let ?j1 = "2 * i + 1"
  let ?j = "if ?j1 + 1 < n \<and> Less q (?j1 + 1) ?j1 then ?j1 + 1 else ?j1"
  show ?case
  proof (cases "n \<le> ?j1 \<or> \<not> Less q ?j i")
    case True
    then show ?thesis
      using down_stop[of n i q] by simp
  next
    case False
    then have j1: "\<not> n \<le> ?j1" and ls: "\<not> \<not> Less q ?j i"
      by auto
    have jn: "?j < length q" and il: "i < length q"
      using j1 "1.prems" by auto
    have "set (down (Swap q i ?j) ?j n) = set (Swap q i ?j)"
      using "1.IH"[OF refl j1 refl ls] "1.prems" by simp
    moreover have "down q i n = down (Swap q i ?j) ?j n"
      using down_step[OF j1 refl, of q] ls by blast
    ultimately show ?thesis
      using set_Swap[OF il jn] by simp
  qed
qed

lemma set_heap_Push: "set (heap_Push q x) = insert x (set q)"
  by (simp add: heap_Push_def set_up)

lemma set_heap_Pop:
  assumes "q \<noteq> []"
  shows "set q = insert (fst (heap_Pop q)) (set (snd (heap_Pop q)))"
proof -
  let ?n = "length q - 1"
  let ?q1 = "down (Swap q 0 ?n) 0 ?n"
  have n: "?n < length q" and z: "0 < length q"
    using assms by simp_all
  have "set ?q1 = set q"
    using set_down[of ?n "Swap q 0 ?n" 0] set_Swap[OF z n] by simp
  moreover have "?q1 \<noteq> []"
    using assms by (metis length_0_conv length_Swap length_down)
  then have "set ?q1 = insert (last ?q1) (set (butlast ?q1))"
    by (metis append_butlast_last_id list.simps(15) rotate1.simps(2) set_rotate1)
  ultimately show ?thesis
    by (simp add: heap_Pop_def Let_def)
qed


lemma heap_root_min:
  assumes "heap_ok q n" and "j < n"
  shows "cost (q ! 0) \<le> cost (q ! j)"
  using assms(2)
proof (induction j rule: less_induct)
  case (less j)
  show ?case
  proof (cases "j = 0")
    case True
    then show ?thesis by simp
  next
    case False
    let ?p = "(j - 1) div 2"
    have p: "?p < j"
      using False by simp
    have "cost (q ! 0) \<le> cost (q ! ?p)"
      using less.IH[OF p] less.prems p by simp
    moreover have "cost (q ! ?p) \<le> cost (q ! j)"
      using assms(1) False less.prems by (simp add: heap_ok_def)
    ultimately show ?thesis
      by simp
  qed
qed


lemma Swap_nth:
  "i < length q \<Longrightarrow> j < length q \<Longrightarrow>
   Swap q i j ! k = (if k = j then q ! i else if k = i then q ! j else q ! k)"
  by (auto simp: Swap_def nth_list_update)

lemma parent_less: "0 < j \<Longrightarrow> parent j < j"
  by (simp add: parent_def)

lemma parent_eq_iff: "parent j = j \<longleftrightarrow> j = 0"
  by (cases j) (auto simp: parent_def)

lemma heap_ok_parent:
  "heap_ok q n = (\<forall>j. 0 < j \<and> j < n \<longrightarrow> cost (q ! parent j) \<le> cost (q ! j))"
  by (simp add: heap_ok_def parent_def)

lemma up_unfold:
  "up q j = (if parent j = j \<or> \<not> Less q j (parent j) then q else up (Swap q (parent j) j) (parent j))"
  by (subst up.simps) (simp add: Let_def parent_def)

lemma up_inv_swap:
  assumes inv: "up_inv q j (length q)" and j: "j < length q" and jpos: "0 < j"
    and lt: "cost (q ! j) < cost (q ! parent j)"
  shows "up_inv (Swap q (parent j) j) (parent j) (length q)"
proof -
  define i where "i = parent j"
  let ?q = "Swap q i j"
  have ij: "i < j" unfolding i_def using jpos by (rule parent_less)
  have il: "i < length q" using ij j by simp
  note nth = Swap_nth[OF il j]
  have lt': "cost (q ! j) < cost (q ! i)"
    using lt by (simp add: i_def)
  have U1: "\<And>k. 0 < k \<Longrightarrow> k < length q \<Longrightarrow> k \<noteq> j \<Longrightarrow> cost (q ! parent k) \<le> cost (q ! k)"
    and U2: "\<And>k. 0 < k \<Longrightarrow> k < length q \<Longrightarrow> parent k = j \<Longrightarrow> cost (q ! i) \<le> cost (q ! k)"
    using inv jpos by (auto simp: up_inv_def i_def)
  have A: "cost (?q ! parent k) \<le> cost (?q ! k)"
    if k: "0 < k" "k < length q" "k \<noteq> i" for k
  proof (cases "k = j")
    case True
    then show ?thesis
      using lt' ij by (simp add: nth i_def[symmetric])
  next
    case False
    show ?thesis
    proof (cases "parent k = i")
      case True
      have "cost (q ! i) \<le> cost (q ! k)"
        using U1[OF k(1,2) False] True by simp
      then show ?thesis
        using True False k(3) lt' ij by (simp add: nth)
    next
      case nI: False
      show ?thesis
      proof (cases "parent k = j")
        case True
        then show ?thesis
          using U2[OF k(1,2) True] False k(3) ij by (simp add: nth)
      next
        case nJ: False
        then show ?thesis
          using U1[OF k(1,2) False] False k(3) nI by (simp add: nth)
      qed
    qed
  qed
  have B: "cost (?q ! parent i) \<le> cost (?q ! k)"
    if k: "0 < k" "k < length q" "parent k = i" "0 < i" for k
  proof -
    have pi: "parent i < i" using k(4) by (rule parent_less)
    then have pn: "parent i \<noteq> i" "parent i \<noteq> j"
      using ij by auto
    have ki: "k \<noteq> i" using k(1,3) parent_less[OF k(1)] by auto
    have up1: "cost (q ! parent i) \<le> cost (q ! i)"
      using U1[of i] k(4) il ij by simp
    show ?thesis
    proof (cases "k = j")
      case True
      then show ?thesis
        using up1 pn ij by (simp add: nth)
    next
      case False
      have "cost (q ! i) \<le> cost (q ! k)"
        using U1[OF k(1,2) False] k(3) by simp
      then show ?thesis
        using up1 pn False ki by (simp add: nth)
    qed
  qed
  show ?thesis
    unfolding up_inv_def i_def[symmetric] using A B by simp
qed

lemma up_heap_ok:
  "up_inv q j (length q) \<Longrightarrow> j < length q \<Longrightarrow> heap_ok (up q j) (length q)"
proof (induction q j rule: up.induct)
  case (1 q j)
  show ?case
  proof (cases "parent j = j \<or> \<not> Less q j (parent j)")
    case True
    have "heap_ok q (length q)"
      unfolding heap_ok_parent
    proof (intro allI impI)
      fix k assume k: "0 < k \<and> k < length q"
      show "cost (q ! parent k) \<le> cost (q ! k)"
      proof (cases "k = j")
        case kj: True
        then have "parent j \<noteq> j" using k by (simp add: parent_eq_iff)
        then have "\<not> Less q j (parent j)" using True by simp
        then show ?thesis
          using kj by (simp add: Less_def)
      next
        case False
        then show ?thesis
          using "1.prems"(1) k by (simp add: up_inv_def)
      qed
    qed
    moreover have "up q j = q"
      using True by (subst up_unfold) simp
    ultimately show ?thesis by simp
  next
    case False
    then have ne: "parent j \<noteq> j" and lt: "cost (q ! j) < cost (q ! parent j)"
      by (auto simp: Less_def)
    have jpos: "0 < j" using ne by (simp add: parent_eq_iff)
    have il: "parent j < length q" using parent_less[OF jpos] "1.prems"(2) by simp
    have inv': "up_inv (Swap q (parent j) j) (parent j) (length (Swap q (parent j) j))"
      using up_inv_swap[OF "1.prems"(1,2) jpos lt] by simp
    have F: "\<not> ((j - 1) div 2 = j \<or> \<not> Less q j ((j - 1) div 2))"
      using False by (simp add: parent_def)
    have "heap_ok (up (Swap q (parent j) j) (parent j)) (length (Swap q (parent j) j))"
      using "1.IH"[OF refl F] inv' il by (simp add: parent_def)
    moreover have "up q j = up (Swap q (parent j) j) (parent j)"
      using False by (subst up_unfold) simp
    ultimately show ?thesis by simp
  qed
qed

lemma heap_Push_ok:
  assumes "heap_ok q (length q)"
  shows "heap_ok (heap_Push q x) (Suc (length q))"
proof -
  have "up_inv (q @ [x]) (length q) (length (q @ [x]))"
    unfolding up_inv_def
  proof (intro conjI allI impI)
    fix k assume k: "0 < k \<and> k < length (q @ [x]) \<and> k \<noteq> length q"
    then have kl: "k < length q" by simp
    then have "parent k < length q" using parent_less[of k] k by simp
    then show "cost ((q @ [x]) ! parent k) \<le> cost ((q @ [x]) ! k)"
      using assms k kl by (simp add: heap_ok_parent nth_append)
  next
    fix k assume k: "0 < k \<and> k < length (q @ [x]) \<and> parent k = length q \<and> 0 < length q"
    then have "False" using parent_less[of k] by auto
    then show "cost ((q @ [x]) ! parent (length q)) \<le> cost ((q @ [x]) ! k)" ..
  qed
  then have "heap_ok (up (q @ [x]) (length q)) (length (q @ [x]))"
    by (rule up_heap_ok) simp
  then show ?thesis
    by (simp add: heap_Push_def)
qed


lemma parent_child: "0 < k \<Longrightarrow> parent k = i \<longleftrightarrow> k = 2 * i + 1 \<or> k = 2 * i + 2"
  unfolding parent_def by (cases k) auto

lemma down_unfold:
  "down q i n =
     (if n \<le> 2 * i + 1 \<or> \<not> Less q (min_child q i n) i then q
      else down (Swap q i (min_child q i n)) (min_child q i n) n)"
  by (subst down.simps) (simp add: Let_def min_child_def)

lemma min_child_props:
  assumes "\<not> n \<le> 2 * i + 1"
  shows "min_child q i n < n" and "i < min_child q i n" and "parent (min_child q i n) = i"
    and "\<And>k. 0 < k \<Longrightarrow> k < n \<Longrightarrow> parent k = i \<Longrightarrow> cost (q ! min_child q i n) \<le> cost (q ! k)"
proof -
  show "min_child q i n < n" "i < min_child q i n"
    using assms by (auto simp: min_child_def)
  show "parent (min_child q i n) = i"
    by (simp add: min_child_def parent_child)
  fix k assume k: "0 < k" "k < n" "parent k = i"
  then have "k = 2 * i + 1 \<or> k = 2 * i + 2"
    using parent_child by blast
  then show "cost (q ! min_child q i n) \<le> cost (q ! k)"
    using k(2) by (auto simp: min_child_def Less_def)
qed

lemma down_inv_swap:
  assumes inv: "down_inv q i n" and n: "n \<le> length q" and c: "\<not> n \<le> 2 * i + 1"
    and lt: "cost (q ! min_child q i n) < cost (q ! i)"
  shows "down_inv (Swap q i (min_child q i n)) (min_child q i n) n"
proof -
  define j where "j = min_child q i n"
  let ?q = "Swap q i j"
  have jn: "j < n" and ij: "i < j" and pj: "parent j = i"
    and mn: "\<And>k. 0 < k \<Longrightarrow> k < n \<Longrightarrow> parent k = i \<Longrightarrow> cost (q ! j) \<le> cost (q ! k)"
    unfolding j_def using min_child_props[OF c] by blast+
  have jl: "j < length q" and il: "i < length q"
    using jn ij n by auto
  note nth = Swap_nth[OF il jl]
  have lt': "cost (q ! j) < cost (q ! i)"
    using lt by (simp add: j_def)
  have D1: "\<And>k. 0 < k \<Longrightarrow> k < n \<Longrightarrow> parent k \<noteq> i \<Longrightarrow> cost (q ! parent k) \<le> cost (q ! k)"
    and D2: "\<And>k. 0 < k \<Longrightarrow> k < n \<Longrightarrow> parent k = i \<Longrightarrow> 0 < i \<Longrightarrow>
            cost (q ! parent i) \<le> cost (q ! k)"
    using inv by (auto simp: down_inv_def)
  have A: "cost (?q ! parent k) \<le> cost (?q ! k)"
    if k: "0 < k" "k < n" "parent k \<noteq> j" for k
  proof (cases "parent k = i")
    case True
    have ki: "k \<noteq> i" using True parent_less[OF k(1)] by auto
    show ?thesis
    proof (cases "k = j")
      case kj: True
      then show ?thesis
        using True lt' ij by (simp add: nth)
    next
      case False
      then show ?thesis
        using mn[OF k(1,2) True] True ki ij by (simp add: nth)
    qed
  next
    case False
    have kj: "k \<noteq> j" using False pj by auto
    show ?thesis
    proof (cases "k = i")
      case True
      have "cost (q ! parent i) \<le> cost (q ! j)"
        using D2[of j] jn ij pj k(1) True by simp
      then show ?thesis
        using True False k(3) ij by (simp add: nth)
    next
      case ki: False
      then show ?thesis
        using D1[OF k(1,2) False] False k(3) kj by (simp add: nth)
    qed
  qed
  have B: "cost (?q ! parent j) \<le> cost (?q ! k)"
    if k: "0 < k" "k < n" "parent k = j" for k
  proof -
    have kj: "j < k" using k(3) parent_less[OF k(1)] by simp
    then have kn: "k \<noteq> i" "k \<noteq> j" using ij by auto
    have "parent k \<noteq> i" using k(3) ij by simp
    then have "cost (q ! j) \<le> cost (q ! k)"
      using D1[OF k(1,2)] k(3) by simp
    then show ?thesis
      using pj kn ij by (simp add: nth)
  qed
  show ?thesis
    unfolding down_inv_def j_def[symmetric] using A B by simp
qed

lemma down_heap_ok:
  "down_inv q i n \<Longrightarrow> n \<le> length q \<Longrightarrow> heap_ok (down q i n) n"
proof (induction q i n rule: down.induct)
  case (1 q i n)
  let ?j = "min_child q i n"
  show ?case
  proof (cases "n \<le> 2 * i + 1 \<or> \<not> Less q ?j i")
    case True
    have "heap_ok q n"
      unfolding heap_ok_parent
    proof (intro allI impI)
      fix k assume k: "0 < k \<and> k < n"
      show "cost (q ! parent k) \<le> cost (q ! k)"
      proof (cases "parent k = i")
        case pk: True
        then have "k = 2 * i + 1 \<or> k = 2 * i + 2"
          using k parent_child by blast
        then have c: "\<not> n \<le> 2 * i + 1"
          using k by auto
        then have "\<not> Less q ?j i"
          using True by simp
        then have "cost (q ! i) \<le> cost (q ! ?j)"
          by (simp add: Less_def)
        moreover have "cost (q ! ?j) \<le> cost (q ! k)"
          using min_child_props(4)[OF c _ _ pk] k by simp
        ultimately show ?thesis
          using pk by simp
      next
        case False
        then show ?thesis
          using "1.prems"(1) k by (simp add: down_inv_def)
      qed
    qed
    moreover have "down q i n = q"
      using True by (subst down_unfold) simp
    ultimately show ?thesis by simp
  next
    case False
    then have c: "\<not> n \<le> 2 * i + 1" and lt: "cost (q ! ?j) < cost (q ! i)"
      by (auto simp: Less_def)
    have inv': "down_inv (Swap q i ?j) ?j n"
      by (rule down_inv_swap[OF "1.prems"(1,2) c lt])
    have L: "\<not> \<not> Less q (if 2 * i + 1 + 1 < n \<and> Less q (2 * i + 1 + 1) (2 * i + 1) then 2 * i + 1 + 1 else 2 * i + 1) i"
      using False by (simp add: min_child_def)
    have "heap_ok (down (Swap q i (if 2 * i + 1 + 1 < n \<and> Less q (2 * i + 1 + 1) (2 * i + 1) then 2 * i + 1 + 1 else 2 * i + 1))
        (if 2 * i + 1 + 1 < n \<and> Less q (2 * i + 1 + 1) (2 * i + 1) then 2 * i + 1 + 1 else 2 * i + 1) n) n"
      by (rule "1.IH"[OF refl c refl L]) (use inv' "1.prems"(2) in \<open>simp_all add: min_child_def\<close>)
    then have "heap_ok (down (Swap q i ?j) ?j n) n"
      by (simp add: min_child_def)
    moreover have "down q i n = down (Swap q i ?j) ?j n"
      using False by (subst down_unfold) simp
    ultimately show ?thesis by simp
  qed
qed

lemma down_nth_ge:
  "n \<le> k \<Longrightarrow> n \<le> length q \<Longrightarrow> down q i n ! k = q ! k"
proof (induction q i n rule: down.induct)
  case (1 q i n)
  let ?j = "min_child q i n"
  show ?case
  proof (cases "n \<le> 2 * i + 1 \<or> \<not> Less q ?j i")
    case True
    then show ?thesis
      by (subst down_unfold) simp
  next
    case False
    then have c: "\<not> n \<le> 2 * i + 1"
      by auto
    have jn: "?j < n" and ij: "i < ?j"
      using min_child_props(1,2)[OF c] by blast+
    have L: "\<not> \<not> Less q (if 2 * i + 1 + 1 < n \<and> Less q (2 * i + 1 + 1) (2 * i + 1) then 2 * i + 1 + 1 else 2 * i + 1) i"
      using False by (simp add: min_child_def)
    have "down (Swap q i (if 2 * i + 1 + 1 < n \<and> Less q (2 * i + 1 + 1) (2 * i + 1) then 2 * i + 1 + 1 else 2 * i + 1))
        (if 2 * i + 1 + 1 < n \<and> Less q (2 * i + 1 + 1) (2 * i + 1) then 2 * i + 1 + 1 else 2 * i + 1) n ! k
        = Swap q i (if 2 * i + 1 + 1 < n \<and> Less q (2 * i + 1 + 1) (2 * i + 1) then 2 * i + 1 + 1 else 2 * i + 1) ! k"
      by (rule "1.IH"[OF refl c refl L]) (use "1.prems" in simp_all)
    then have "down (Swap q i ?j) ?j n ! k = Swap q i ?j ! k"
      by (simp add: min_child_def)
    moreover have "Swap q i ?j ! k = q ! k"
      using jn ij "1.prems" by (simp add: Swap_nth)
    moreover have "down q i n = down (Swap q i ?j) ?j n"
      using False by (subst down_unfold) simp
    ultimately show ?thesis by simp
  qed
qed

lemma heap_Pop_unfold:
  "heap_Pop q = (last (down (Swap q 0 (length q - 1)) 0 (length q - 1)),
                 butlast (down (Swap q 0 (length q - 1)) 0 (length q - 1)))"
  by (simp add: heap_Pop_def Let_def)

lemma heap_Pop_min:
  assumes ok: "heap_ok q (length q)" and ne: "q \<noteq> []"
  shows "fst (heap_Pop q) = q ! 0"
    and "\<forall>x \<in> set q. cost (fst (heap_Pop q)) \<le> cost x"
    and "heap_ok (snd (heap_Pop q)) (length q - 1)"
proof -
  define m where "m = length q - 1"
  define q1 where "q1 = Swap q 0 m"
  define q2 where "q2 = down q1 0 m"
  have pop: "heap_Pop q = (last q2, butlast q2)"
    unfolding q2_def q1_def m_def by (rule heap_Pop_unfold)
  have n: "m < length q" and z: "0 < length q" and lm: "length q = Suc m"
    using ne by (simp_all add: m_def)
  have l1: "length q1 = length q"
    by (simp add: q1_def)
  have l2: "length q2 = length q"
    by (simp add: q2_def q1_def)
  have nth1: "q1 ! k = (if k = m then q ! 0 else if k = 0 then q ! m else q ! k)" for k
    unfolding q1_def by (rule Swap_nth[OF z n])
  have "q2 \<noteq> []"
    using ne l2 by (metis length_0_conv)
  then have "last q2 = q2 ! m"
    using l2 lm by (simp add: last_conv_nth)
  also have "\<dots> = q1 ! m"
    unfolding q2_def by (rule down_nth_ge) (simp_all add: l1 lm)
  also have "\<dots> = q ! 0"
    by (simp add: nth1)
  finally show root: "fst (heap_Pop q) = q ! 0"
    by (simp add: pop)
  show "\<forall>x \<in> set q. cost (fst (heap_Pop q)) \<le> cost x"
  proof
    fix x assume "x \<in> set q"
    then obtain j where "j < length q" "x = q ! j"
      by (metis in_set_conv_nth)
    then show "cost (fst (heap_Pop q)) \<le> cost x"
      using heap_root_min[OF ok] root by simp
  qed
  have "down_inv q1 0 m"
    unfolding down_inv_def
  proof (intro conjI allI impI)
    fix k assume k: "0 < k \<and> k < m \<and> parent k \<noteq> 0"
    then have pk: "0 < parent k" "parent k < m"
      using parent_less[of k] by auto
    have "k < length q"
      using k lm by simp
    then have "cost (q ! parent k) \<le> cost (q ! k)"
      using ok k by (simp add: heap_ok_parent)
    then show "cost (q1 ! parent k) \<le> cost (q1 ! k)"
      using k pk by (simp add: nth1)
  next
    fix k assume "0 < k \<and> k < m \<and> parent k = 0 \<and> (0::nat) < 0"
    then show "cost (q1 ! parent 0) \<le> cost (q1 ! k)"
      by simp
  qed
  then have h: "heap_ok q2 m"
    unfolding q2_def by (rule down_heap_ok) (simp add: l1 lm)
  have "heap_ok (butlast q2) m"
    unfolding heap_ok_parent
  proof (intro allI impI)
    fix j assume j: "0 < j \<and> j < m"
    then have pj: "parent j < m"
      using parent_less[of j] by simp
    have "cost (q2 ! parent j) \<le> cost (q2 ! j)"
      using h j by (simp add: heap_ok_parent)
    then show "cost (butlast q2 ! parent j) \<le> cost (butlast q2 ! j)"
      using j pj l2 lm by (simp add: nth_butlast)
  qed
  then show "heap_ok (snd (heap_Pop q)) (length q - 1)"
    by (simp add: pop m_def)
qed


lemma relax_push:
  "\<not> visited st (to e) \<Longrightarrow> cost current + (1 - weight e) < dist_of st (to e) \<Longrightarrow>
   relax current st e =
     st\<lparr>dist := (dist st)(to e \<mapsto> cost current + (1 - weight e)),
        prev := (prev st)(to e \<mapsto> asset current),
        pq := heap_Push (pq st) \<lparr>asset = to e, cost = cost current + (1 - weight e)\<rparr>\<rparr>"
  by (simp add: relax_def Let_def)

lemma relax_keep:
  "\<not> cost current + (1 - weight e) < dist_of st (to e) \<Longrightarrow> relax current st e = st"
  by (simp add: relax_def Let_def)

text \<open>
  C8, as amended. In the shortest-path search the cost of an edge is 1 - weight and the
  cost of a path is the sum: an edge to an unvisited node whose new cost is below the
  recorded one pushes an entry with the cost of the current entry plus 1 - weight, and a
  candidate that is not strictly cheaper changes nothing, so among equal-cost candidates the
  one found first stays. The queue is a binary min-heap on the accumulated cost alone:
  pushing keeps the heap order, and popping from a heap-ordered queue returns a queued entry
  of least accumulated cost and keeps the heap order. Which of several entries of equal
  cost is popped first is fixed by the sifting, not by the insertion order.
\<close>

theorem heap_pops_least_cost:
  "(\<not> visited st (to e) \<and> cost current + (1 - weight e) < dist_of st (to e) \<longrightarrow>
      relax current st e =
        st\<lparr>dist := (dist st)(to e \<mapsto> cost current + (1 - weight e)),
           prev := (prev st)(to e \<mapsto> asset current),
           pq := heap_Push (pq st) \<lparr>asset = to e, cost = cost current + (1 - weight e)\<rparr>\<rparr>)
   \<and> (\<not> cost current + (1 - weight e) < dist_of st (to e) \<longrightarrow> relax current st e = st)
   \<and> (heap_ok q (length q) \<longrightarrow> heap_ok (heap_Push q x) (length (heap_Push q x)))
   \<and> (heap_ok q (length q) \<and> q \<noteq> [] \<longrightarrow>
        fst (heap_Pop q) \<in> set q
        \<and> (\<forall>n \<in> set q. cost (fst (heap_Pop q)) \<le> cost n)
        \<and> heap_ok (snd (heap_Pop q)) (length (snd (heap_Pop q))))"
proof (intro conjI impI)
  assume "\<not> visited st (to e) \<and> cost current + (1 - weight e) < dist_of st (to e)"
  then show "relax current st e =
        st\<lparr>dist := (dist st)(to e \<mapsto> cost current + (1 - weight e)),
           prev := (prev st)(to e \<mapsto> asset current),
           pq := heap_Push (pq st) \<lparr>asset = to e, cost = cost current + (1 - weight e)\<rparr>\<rparr>"
    using relax_push by blast
next
  assume "\<not> cost current + (1 - weight e) < dist_of st (to e)"
  then show "relax current st e = st"
    by (rule relax_keep)
next
  assume "heap_ok q (length q)"
  then show "heap_ok (heap_Push q x) (length (heap_Push q x))"
    using heap_Push_ok by simp
next
  assume h: "heap_ok q (length q) \<and> q \<noteq> []"
  then have "fst (heap_Pop q) = q ! 0"
    using heap_Pop_min(1) by blast
  then show "fst (heap_Pop q) \<in> set q"
    using h by simp
  show "\<forall>n \<in> set q. cost (fst (heap_Pop q)) \<le> cost n"
    using h heap_Pop_min(2) by blast
  show "heap_ok (snd (heap_Pop q)) (length (snd (heap_Pop q)))"
    using h heap_Pop_min(3) by (simp add: length_heap_Pop)
qed

lemma tie_queue_eval:
  "tie_queue = [\<lparr>asset = ''A'', cost = 3 / 1000\<rparr>, \<lparr>asset = ''B'', cost = 3 / 1000\<rparr>,
                \<lparr>asset = ''C'', cost = 3 / 1000\<rparr>]"
  by code_simp

text \<open>
  C8 as stated fails: of three entries of equal cost pushed in the order A, B, C, the pops
  return A, then C, then B. In the snapshot \<open>tie_pools\<close> the search from S therefore visits
  C before B and returns the path through C, although the entry of B was queued first.
\<close>

theorem heap_pop_order_not_insertion_order:
  "tie_queue = [\<lparr>asset = ''A'', cost = 3 / 1000\<rparr>, \<lparr>asset = ''B'', cost = 3 / 1000\<rparr>,
                \<lparr>asset = ''C'', cost = 3 / 1000\<rparr>]
   \<and> asset (fst (heap_Pop tie_queue)) = ''A''
   \<and> asset (fst (heap_Pop (snd (heap_Pop tie_queue)))) = ''C''
   \<and> asset (fst (heap_Pop (snd (heap_Pop (snd (heap_Pop tie_queue)))))) = ''B''
   \<and> map_option fst (dijkstra (buildGraph tie_pools []) ''S'' ''E'') = Some (Some [''S'', ''C'', ''E''])"
  by code_simp

theorem heap_pops_least_cost_witness:
  "heap_ok (heap_Push [] \<lparr>asset = ''A'', cost = 3 / 1000\<rparr>) 1
   \<and> cost (fst (heap_Pop tie_queue)) \<le> cost \<lparr>asset = ''C'', cost = 3 / 1000\<rparr>
   \<and> relax \<lparr>asset = ''S'', cost = 0\<rparr>
        \<lparr>dist = Map.empty, prev = Map.empty, visited = (\<lambda>k. False), pq = []\<rparr>
        \<lparr>to = ''A'', weight = 997 / 1000, edge_pool = None, edge_offer = None\<rparr>
      = \<lparr>dist = Map.empty, prev = Map.empty, visited = (\<lambda>k. False), pq = []\<rparr>"
proof -
  have e: "heap_ok [] (length ([] :: priorityQueue))"
    by (simp add: heap_ok_def)
  have a: "heap_ok (heap_Push [] \<lparr>asset = ''A'', cost = 3 / 1000\<rparr>) 1"
    using heap_pops_least_cost[of _ _ _ "[]" "\<lparr>asset = ''A'', cost = 3 / 1000\<rparr>"] e by simp
  have b: "heap_ok (heap_Push (heap_Push [] \<lparr>asset = ''A'', cost = 3 / 1000\<rparr>)
       \<lparr>asset = ''B'', cost = 3 / 1000\<rparr>) 2"
    using heap_Push_ok[of "heap_Push [] \<lparr>asset = ''A'', cost = 3 / 1000\<rparr>"
        "\<lparr>asset = ''B'', cost = 3 / 1000\<rparr>"] a
    by (simp add: numeral_2_eq_2)
  have c: "heap_ok tie_queue (length tie_queue)"
    using heap_Push_ok[of "heap_Push (heap_Push [] \<lparr>asset = ''A'', cost = 3 / 1000\<rparr>)
       \<lparr>asset = ''B'', cost = 3 / 1000\<rparr>" "\<lparr>asset = ''C'', cost = 3 / 1000\<rparr>"] b
    by (simp add: tie_queue_def numeral_2_eq_2)
  have ne: "tie_queue \<noteq> []" and cin: "\<lparr>asset = ''C'', cost = 3 / 1000\<rparr> \<in> set tie_queue"
    by (simp_all add: tie_queue_eval)
  have m: "cost (fst (heap_Pop tie_queue)) \<le> cost \<lparr>asset = ''C'', cost = 3 / 1000\<rparr>"
    using heap_pops_least_cost[of _ _ _ tie_queue] c ne cin by blast
  let ?st = "\<lparr>dist = Map.empty, prev = Map.empty, visited = (\<lambda>k. False), pq = []\<rparr>"
  let ?e = "\<lparr>to = ''A'', weight = 997 / 1000, edge_pool = None, edge_offer = None\<rparr>"
  have "\<not> cost \<lparr>asset = ''S'', cost = 0\<rparr> + (1 - weight ?e) < dist_of ?st (to ?e)"
    by (simp add: dist_of_def)
  then have r: "relax \<lparr>asset = ''S'', cost = 0\<rparr> ?st ?e = ?st"
    using heap_pops_least_cost[of ?st ?e "\<lparr>asset = ''S'', cost = 0\<rparr>"] by blast
  show ?thesis
    using a m r by blast
qed

section \<open>Properties of the route search\<close>

lemma findHop_pools_ends:
  "findHop_pools ps from to' amt = Some (Returns h) \<Longrightarrow>
   String (HopIn h) = from \<and> String (HopOut h) = to' \<and> AmountIn h = amt"
  by (induction ps) (auto split: if_splits option.splits)

lemma findHop_offers_ends:
  "findHop_offers xs from to' amt = Some h \<Longrightarrow>
   String (HopIn h) = from \<and> String (HopOut h) = to' \<and> AmountIn h = amt"
  by (induction xs) (auto split: if_splits)

lemma findHop_ends:
  "findHop pools offers from to' amt = Returns (Some h) \<Longrightarrow>
   String (HopIn h) = from \<and> String (HopOut h) = to' \<and> AmountIn h = amt"
  using findHop_pools_ends findHop_offers_ends
  by (auto simp: findHop_def split: option.splits outcome.splits)

lemma buildHops_follows:
  "buildHops pools offers path amt = Returns (Some hops) \<Longrightarrow> follows hops path amt"
proof (induction pools offers path amt arbitrary: hops rule: buildHops.induct)
  case (1 pools offers a b path currentAmount)
  from "1.prems" obtain h hs where h: "findHop pools offers a b currentAmount = Returns (Some h)"
    and hs: "buildHops pools offers (b # path) (AmountOut h) = Returns (Some hs)"
    and hops: "hops = h # hs"
    by (auto split: outcome.splits option.splits)
  have "follows hs (b # path) (AmountOut h)"
    using "1.IH"[OF h refl hs] .
  then show ?case
    using findHop_ends[OF h] hops by simp
qed simp_all

lemma follows_props:
  "follows hops path amt \<Longrightarrow> 2 \<le> length path \<Longrightarrow>
   hops \<noteq> [] \<and> length hops = length path - 1
   \<and> String (HopIn (hd hops)) = hd path \<and> String (HopOut (last hops)) = last path
   \<and> AmountIn (hd hops) = amt
   \<and> (\<forall>i. Suc i < length hops \<longrightarrow>
         String (HopOut (hops ! i)) = String (HopIn (hops ! Suc i))
         \<and> AmountOut (hops ! i) = AmountIn (hops ! Suc i))"
proof (induction hops path amt rule: follows.induct)
  case (1 path amt)
  then show ?case by simp
next
  case (2 h hs path amt)
  from "2.prems"(1) obtain a b rest where p: "path = a # b # rest"
    and h: "String (HopIn h) = a" "String (HopOut h) = b" "AmountIn h = amt"
    and f: "follows hs (b # rest) (AmountOut h)"
    by (auto split: list.splits)
  show ?case
  proof (cases rest)
    case Nil
    then have "hs = []"
      using f by (cases hs) auto
    then show ?thesis
      using p h Nil by simp
  next
    case (Cons c rest')
    have ih: "hs \<noteq> [] \<and> length hs = length (b # rest) - 1
       \<and> String (HopIn (hd hs)) = hd (b # rest) \<and> String (HopOut (last hs)) = last (b # rest)
       \<and> AmountIn (hd hs) = AmountOut h
       \<and> (\<forall>i. Suc i < length hs \<longrightarrow>
         String (HopOut (hs ! i)) = String (HopIn (hs ! Suc i))
         \<and> AmountOut (hs ! i) = AmountIn (hs ! Suc i))"
      using "2.IH"[OF p refl f] Cons by simp
    have adj: "String (HopOut ((h # hs) ! i)) = String (HopIn ((h # hs) ! Suc i))
         \<and> AmountOut ((h # hs) ! i) = AmountIn ((h # hs) ! Suc i)"
      if "Suc i < length (h # hs)" for i
    proof (cases i)
      case 0
      have "hd hs = hs ! 0"
        using ih by (simp add: hd_conv_nth)
      then show ?thesis
        using ih h 0 by auto
    next
      case (Suc k)
      then show ?thesis
        using ih that by simp
    qed
    show ?thesis
      using ih p h adj by (simp add: Cons)
  qed
qed

lemma chain_mono:
  assumes "chain V prv start x" and "\<And>w. V w \<Longrightarrow> V' w \<and> prv' w = prv w"
  shows "chain V' prv' start x"
  using assms(1)
proof (induction rule: chain.induct)
  case chain_start
  then show ?case
    using assms(2) by (auto intro: chain.chain_start)
next
  case (chain_step x y)
  then show ?case
    using assms(2) by (metis chain.chain_step)
qed

lemma relax_inv:
  assumes inv: "search_inv start st" and vis: "visited st (asset current)"
  shows "search_inv start (relax current st e)"
proof (cases "\<not> visited st (to e) \<and> cost current + (1 - weight e) < dist_of st (to e)")
  case False
  then have "relax current st e = st"
    by (auto simp: relax_def Let_def)
  then show ?thesis
    using inv by simp
next
  case True
  let ?c = "cost current + (1 - weight e)"
  let ?st = "st\<lparr>dist := (dist st)(to e \<mapsto> ?c), prev := (prev st)(to e \<mapsto> asset current),
               pq := heap_Push (pq st) \<lparr>asset = to e, cost = ?c\<rparr>\<rparr>"
  have r: "relax current st e = ?st"
    using True by (simp add: relax_def Let_def)
  have a: "chain (visited ?st) (prev ?st) start x" if "visited ?st x" for x
  proof -
    have vx: "visited st x" using that by simp
    then have "chain (visited st) (prev st) start x"
      using inv by (simp add: search_inv_def)
    then show ?thesis
    proof (rule chain_mono)
      fix w assume "visited st w"
      then show "visited ?st w \<and> prev ?st w = prev st w"
        using True by auto
    qed
  qed
  have b: "visited ?st y" if "prev ?st x = Some y" for x y
    using that inv vis by (auto simp: search_inv_def split: if_splits)
  have c: "asset n = start \<or> prev ?st (asset n) \<noteq> None" if "n \<in> set (pq ?st)" for n
    using that inv by (auto simp: search_inv_def set_heap_Push)
  show ?thesis
    unfolding r search_inv_def using a b c by blast
qed

lemma foldl_relax_inv:
  "search_inv start st \<Longrightarrow> visited st (asset current) \<Longrightarrow>
   search_inv start (foldl (relax current) st es)"
proof (induction es arbitrary: st)
  case Nil
  then show ?case by simp
next
  case (Cons e es)
  have "search_inv start (relax current st e)"
    using Cons.prems by (rule relax_inv)
  moreover have "visited (relax current st e) (asset current)"
    using Cons.prems(2) by simp
  ultimately show ?case
    using Cons.IH by simp
qed

lemma relax_nonempty:
  "prev_nonempty st \<Longrightarrow> asset current \<noteq> [] \<Longrightarrow> prev_nonempty (relax current st e)"
  by (auto simp: relax_def prev_nonempty_def Let_def)

lemma foldl_relax_nonempty:
  "prev_nonempty st \<Longrightarrow> asset current \<noteq> [] \<Longrightarrow>
   prev_nonempty (foldl (relax current) st es)"
  by (induction es arbitrary: st) (simp_all add: relax_nonempty)

lemma dijkstra_loop_inv:
  "search_inv start st \<Longrightarrow> search_inv start (dijkstra_loop g end' st)"
proof (induction g end' st rule: dijkstra_loop.induct)
  case (1 g end' st)
  show ?case
  proof (cases "pq st = []")
    case True
    then show ?thesis
      using "1.prems" by (subst dijkstra_loop.simps) simp
  next
    case False
    define current where "current = fst (heap_Pop (pq st))"
    define st1 where "st1 = st\<lparr>pq := snd (heap_Pop (pq st))\<rparr>"
    define st2 where "st2 = st1\<lparr>visited := (visited st1)(asset current := True)\<rparr>"
    have pop: "set (pq st) = insert current (set (pq st1))"
      using set_heap_Pop[OF False] by (simp add: current_def st1_def)
    have inv1: "search_inv start st1"
      using "1.prems" pop by (auto simp: search_inv_def st1_def)
    show ?thesis
    proof (cases "visited st1 (asset current)")
      case True
      have "dijkstra_loop g end' st = dijkstra_loop g end' st1"
        using False True
        by (subst dijkstra_loop.simps) (simp add: Let_def current_def st1_def)
      moreover have "search_inv start (dijkstra_loop g end' st1)"
        using "1.IH"(1)[OF False current_def st1_def True inv1] .
      ultimately show ?thesis by simp
    next
      case nv: False
      have cur: "asset current = start \<or> prev st (asset current) \<noteq> None"
        using "1.prems" pop by (auto simp: search_inv_def)
      have mono: "chain (visited st2) (prev st2) start x" if "chain (visited st1) (prev st1) start x" for x
        using that by (rule chain_mono) (auto simp: st2_def)
      have a: "chain (visited st2) (prev st2) start x" if "visited st2 x" for x
      proof (cases "x = asset current")
        case False
        then have "visited st1 x"
          using that by (simp add: st2_def)
        then show ?thesis
          using inv1 mono by (simp add: search_inv_def)
      next
        case True
        show ?thesis
        proof (cases "asset current = start")
          case s: True
          then show ?thesis
            using True by (auto intro: chain.chain_start simp: st2_def)
        next
          case False
          then obtain y where y: "prev st (asset current) = Some y"
            using cur by auto
          then have "visited st1 y"
            using "1.prems" by (auto simp: search_inv_def st1_def)
          then have "chain (visited st1) (prev st1) start y"
            using inv1 by (simp add: search_inv_def)
          then have "chain (visited st2) (prev st2) start y"
            by (rule mono)
          moreover have "prev st2 x = Some y" "visited st2 x"
            using y True by (simp_all add: st2_def st1_def)
          ultimately show ?thesis
            by (meson chain.chain_step)
        qed
      qed
      have b: "visited st2 y" if "prev st2 x = Some y" for x y
        using that inv1 by (auto simp: search_inv_def st2_def)
      have c: "asset n = start \<or> prev st2 (asset n) \<noteq> None" if "n \<in> set (pq st2)" for n
        using that inv1 by (auto simp: search_inv_def st2_def)
      have inv2: "search_inv start st2"
        unfolding search_inv_def using a b c by blast
      show ?thesis
      proof (cases "asset current = end'")
        case True
        have "dijkstra_loop g end' st = st2"
          using False nv True
          by (subst dijkstra_loop.simps) (simp add: Let_def current_def st1_def st2_def)
        then show ?thesis
          using inv2 by simp
      next
        case ne: False
        let ?st3 = "foldl (relax current) st2 (edges_of g (asset current))"
        have "visited st2 (asset current)"
          by (simp add: st2_def)
        then have inv3: "search_inv start ?st3"
          using inv2 by (simp add: foldl_relax_inv)
        have "dijkstra_loop g end' st = dijkstra_loop g end' ?st3"
          using False nv ne
          by (subst dijkstra_loop.simps) (simp add: Let_def current_def st1_def st2_def)
        moreover have "search_inv start (dijkstra_loop g end' ?st3)"
          using "1.IH"(2)[OF False current_def st1_def nv st2_def ne inv3] .
        ultimately show ?thesis by simp
      qed
    qed
  qed
qed

lemma dijkstra_loop_nonempty:
  "edges_of g [] = [] \<Longrightarrow> prev_nonempty st \<Longrightarrow> prev_nonempty (dijkstra_loop g end' st)"
proof (induction g end' st rule: dijkstra_loop.induct)
  case (1 g end' st)
  show ?case
  proof (cases "pq st = []")
    case True
    then show ?thesis
      using "1.prems" by (subst dijkstra_loop.simps) simp
  next
    case False
    define current where "current = fst (heap_Pop (pq st))"
    define st1 where "st1 = st\<lparr>pq := snd (heap_Pop (pq st))\<rparr>"
    define st2 where "st2 = st1\<lparr>visited := (visited st1)(asset current := True)\<rparr>"
    have n1: "prev_nonempty st1" and n2: "prev_nonempty st2"
      using "1.prems"(2) by (simp_all add: prev_nonempty_def st1_def st2_def)
    show ?thesis
    proof (cases "visited st1 (asset current)")
      case True
      have "dijkstra_loop g end' st = dijkstra_loop g end' st1"
        using False True
        by (subst dijkstra_loop.simps) (simp add: Let_def current_def st1_def)
      moreover have "prev_nonempty (dijkstra_loop g end' st1)"
        using "1.IH"(1)[OF False current_def st1_def True "1.prems"(1) n1] .
      ultimately show ?thesis by simp
    next
      case nv: False
      show ?thesis
      proof (cases "asset current = end'")
        case True
        have "dijkstra_loop g end' st = st2"
          using False nv True
          by (subst dijkstra_loop.simps) (simp add: Let_def current_def st1_def st2_def)
        then show ?thesis
          using n2 by simp
      next
        case ne: False
        let ?st3 = "foldl (relax current) st2 (edges_of g (asset current))"
        have n3: "prev_nonempty ?st3"
        proof (cases "asset current = []")
          case True
          then show ?thesis
            using "1.prems"(1) n2 by simp
        next
          case False
          then show ?thesis
            using n2 by (rule foldl_relax_nonempty[rotated])
        qed
        have "dijkstra_loop g end' st = dijkstra_loop g end' ?st3"
          using False nv ne
          by (subst dijkstra_loop.simps) (simp add: Let_def current_def st1_def st2_def)
        moreover have "prev_nonempty (dijkstra_loop g end' ?st3)"
          using "1.IH"(2)[OF False current_def st1_def nv st2_def ne "1.prems"(1) n3] .
        ultimately show ?thesis by simp
      qed
    qed
  qed
qed

lemma walk_chain:
  assumes "chain V prv start x" and "\<forall>a b. prv a = Some b \<longrightarrow> b \<noteq> []" and "x \<noteq> []"
  shows "\<exists>p. walk prv start x acc = Some (p @ acc) \<and> p \<noteq> [] \<and> hd p = start \<and> last p = x"
  using assms(1,3)
proof (induction arbitrary: acc rule: chain.induct)
  case chain_start
  then have "walk prv start start acc = Some ([start] @ acc)"
    by (subst walk.simps) simp
  then show ?case
    by (metis hd_conv_nth last.simps length_greater_0_conv list.discI nth_Cons_0)
next
  case (chain_step x y)
  show ?case
  proof (cases "x = start")
    case True
    then have "walk prv start x acc = Some ([x] @ acc)"
      using chain_step.prems by (subst walk.simps) simp
    then show ?thesis
      using True by (metis hd_conv_nth last.simps length_greater_0_conv list.discI nth_Cons_0)
  next
    case False
    have y: "y \<noteq> []"
      using assms(2) chain_step.hyps(2) by blast
    obtain p where p: "walk prv start y (x # acc) = Some (p @ x # acc)" "p \<noteq> []" "hd p = start"
      using chain_step.IH[OF y, of "x # acc"] by blast
    have "walk prv start x acc = walk prv start y (x # acc)"
      using False chain_step.prems chain_step.hyps(2) by (subst walk.simps) simp
    then have "walk prv start x acc = Some ((p @ [x]) @ acc)"
      using p(1) by simp
    moreover have "p @ [x] \<noteq> []" "hd (p @ [x]) = start" "last (p @ [x]) = x"
      using p(2,3) by simp_all
    ultimately show ?thesis
      by blast
  qed
qed

lemma walk_total:
  assumes "chain V prv start x"
  shows "\<exists>p. walk prv start x acc = Some p"
  using assms
proof (induction arbitrary: acc rule: chain.induct)
  case chain_start
  show ?case
    by (subst walk.simps) simp
next
  case (chain_step x y)
  show ?case
  proof (cases "x = [] \<or> x = start")
    case True
    then show ?thesis
      by (subst walk.simps) auto
  next
    case False
    have "walk prv start x acc = walk prv start y (x # acc)"
      using False chain_step.hyps(2) by (subst walk.simps) simp
    then show ?thesis
      using chain_step.IH[of "x # acc"] by simp
  qed
qed

lemma dijkstra_unfold:
  "dijkstra g start end' =
     (let st = dijkstra_loop g end' (initial_search g start)
      in if prev st end' = None \<and> start \<noteq> end' then Some (None, 0)
         else case walk (prev st) start end' [] of
                None \<Rightarrow> None
              | Some path \<Rightarrow> Some (Some path, dist_of st end'))"
  by (simp add: dijkstra_def initial_search_def Let_def)

lemma initial_search_inv:
  "search_inv start (initial_search g start)" "prev_nonempty (initial_search g start)"
  by (simp_all add: search_inv_def prev_nonempty_def initial_search_def set_heap_Push)

lemma dijkstra_total: "dijkstra g start end' \<noteq> None"
proof -
  define st where "st = dijkstra_loop g end' (initial_search g start)"
  have inv: "search_inv start st"
    unfolding st_def using initial_search_inv(1) by (rule dijkstra_loop_inv)
  show ?thesis
  proof (cases "prev st end' = None \<and> start \<noteq> end'")
    case True
    then show ?thesis
      by (simp add: dijkstra_unfold st_def[symmetric])
  next
    case False
    have "\<exists>p. walk (prev st) start end' [] = Some p"
    proof (cases "prev st end'")
      case None
      then have "start = end'"
        using False by simp
      then show ?thesis
        by (subst walk.simps) simp
    next
      case (Some y)
      show ?thesis
      proof (cases "end' = [] \<or> end' = start")
        case True
        then show ?thesis
          by (subst walk.simps) auto
      next
        case ne: False
        have "visited st y"
          using inv Some by (auto simp: search_inv_def)
        then have "chain (visited st) (prev st) start y"
          using inv by (simp add: search_inv_def)
        then obtain p where "walk (prev st) start y [end'] = Some p"
          using walk_total by blast
        moreover have "walk (prev st) start end' [] = walk (prev st) start y [end']"
          using ne Some by (subst walk.simps) simp
        ultimately show ?thesis
          by simp
      qed
    qed
    then show ?thesis
      using False by (auto simp: dijkstra_unfold st_def[symmetric])
  qed
qed

lemma dijkstra_path_ends:
  assumes g: "edges_of g [] = []" and d: "dijkstra g start end' = Some (Some path, c)"
    and len: "2 \<le> length path"
  shows "hd path = start \<and> last path = end'"
proof -
  define st where "st = dijkstra_loop g end' (initial_search g start)"
  have inv: "search_inv start st"
    unfolding st_def using initial_search_inv(1) by (rule dijkstra_loop_inv)
  have ne: "prev_nonempty st"
    unfolding st_def using g initial_search_inv(2) by (rule dijkstra_loop_nonempty)
  have w: "walk (prev st) start end' [] = Some path"
    and c: "\<not> (prev st end' = None \<and> start \<noteq> end')"
    using d by (auto simp: dijkstra_unfold st_def[symmetric] split: if_splits option.splits)
  have e1: "end' \<noteq> []"
  proof
    assume "end' = []"
    then have "walk (prev st) start end' [] = Some []"
      by (subst walk.simps) simp
    then show False
      using w len by simp
  qed
  have e2: "end' \<noteq> start"
  proof
    assume "end' = start"
    then have "walk (prev st) start end' [] = Some [end']"
      using e1 by (subst walk.simps) simp
    then show False
      using w len by simp
  qed
  obtain y where y: "prev st end' = Some y"
    using c e2 by auto
  have y0: "y \<noteq> []"
    using ne y by (auto simp: prev_nonempty_def)
  have "visited st y"
    using inv y by (auto simp: search_inv_def)
  then have "chain (visited st) (prev st) start y"
    using inv by (simp add: search_inv_def)
  then obtain p where p: "walk (prev st) start y [end'] = Some (p @ [end'])" "p \<noteq> []" "hd p = start"
    using walk_chain[of "visited st" "prev st" start y "[end']"] ne y0
    by (auto simp: prev_nonempty_def)
  have "walk (prev st) start end' [] = walk (prev st) start y [end']"
    using e1 e2 y by (subst walk.simps) simp
  then have "path = p @ [end']"
    using w p(1) by simp
  then show ?thesis
    using p(2,3) by simp
qed

lemma edges_of_add_edge:
  "edges_of (add_edge g k e) k' = (if k' = k then edges_of g k @ [e] else edges_of g k')"
  by (simp add: edges_of_def add_edge_def update_conv)

lemma foldl_add_pool_empty:
  "edges_of g [] = [] \<Longrightarrow> list_all (\<lambda>ip. String (Asset1 (snd ip)) \<noteq> [] \<and> String (Asset2 (snd ip)) \<noteq> []) ips \<Longrightarrow>
   edges_of (foldl add_pool g ips) [] = []"
proof (induction ips arbitrary: g)
  case Nil
  then show ?case by simp
next
  case (Cons ip ips)
  have "edges_of (add_pool g ip) [] = []"
    using Cons.prems by (auto simp: add_pool_def Let_def edges_of_add_edge)
  then show ?case
    using Cons.IH[of "add_pool g ip"] Cons.prems(2) by simp
qed

lemma foldl_add_offer_empty:
  "edges_of g [] = [] \<Longrightarrow> list_all (\<lambda>io. String (TakerPays (snd io)) \<noteq> []) ios \<Longrightarrow>
   edges_of (foldl add_offer g ios) [] = []"
proof (induction ios arbitrary: g)
  case Nil
  then show ?case by simp
next
  case (Cons io ios)
  have "edges_of (add_offer g io) [] = []"
    using Cons.prems by (auto simp: add_offer_def edges_of_add_edge)
  then show ?case
    using Cons.IH[of "add_offer g io"] Cons.prems(2) by simp
qed

lemma list_all_enumerate:
  "list_all (\<lambda>ip. P (snd ip)) (enumerate n xs) = list_all P xs"
  by (induction xs arbitrary: n) simp_all

lemma buildGraph_no_empty_node:
  assumes "no_empty_node pools offers"
  shows "edges_of (buildGraph pools offers) [] = []"
proof -
  have "edges_of (foldl add_pool [] (enumerate 0 pools)) [] = []"
    using assms
    by (intro foldl_add_pool_empty)
       (simp_all add: no_empty_node_def edges_of_def
          list_all_enumerate[where P = "\<lambda>p. String (Asset1 p) \<noteq> [] \<and> String (Asset2 p) \<noteq> []"])
  then show ?thesis
    using assms unfolding buildGraph_def
    by (intro foldl_add_offer_empty)
       (simp_all add: no_empty_node_def
          list_all_enumerate[where P = "\<lambda>x. String (TakerPays x) \<noteq> []"])
qed

text \<open>
  C2 (as amended). For every snapshot without an empty node and every request,
  \<^verbatim>\<open>FindBestRoute\<close> returns (the path recovery ends); whenever it returns a route rather
  than an error, the hop list is non-empty, the first hop's in asset has the canonical string
  of the request's input asset and takes in the request's amount, the last hop's out asset has
  the canonical string of the request's output asset, each hop's out asset has the canonical
  string of the next hop's in asset, each hop's amount out is the next hop's amount in, and
  there are at most \<^verbatim>\<open>MaxHops\<close> = 3 hops; and a recovered node path of more than
  \<^verbatim>\<open>MaxHops\<close> + 1 nodes yields \<^verbatim>\<open>ErrNoRoute\<close>.
\<close>

theorem FindBestRoute_sound:
  assumes "no_empty_node pools offers"
  shows "FindBestRoute pools offers in' out amount \<noteq> None
    \<and> (FindBestRoute pools offers in' out amount = Some (Returns (Inr route)) \<longrightarrow>
         Hops route \<noteq> []
         \<and> String (HopIn (hd (Hops route))) = String in'
         \<and> String (HopOut (last (Hops route))) = String out
         \<and> AmountIn (hd (Hops route)) = amount
         \<and> (\<forall>i. Suc i < length (Hops route) \<longrightarrow>
               String (HopOut (Hops route ! i)) = String (HopIn (Hops route ! Suc i))
               \<and> AmountOut (Hops route ! i) = AmountIn (Hops route ! Suc i))
         \<and> length (Hops route) \<le> MaxHops \<and> MaxHops = 3)
    \<and> (dijkstra (buildGraph pools offers) (String in') (String out) = Some (Some path, c)
         \<and> length path > MaxHops + 1 \<longrightarrow>
         FindBestRoute pools offers in' out amount = Some (Returns (Inl ErrNoRoute)))"
proof -
  let ?g = "buildGraph pools offers"
  have total: "FindBestRoute pools offers in' out amount \<noteq> None"
    using dijkstra_total[of ?g "String in'" "String out"]
    by (auto simp: FindBestRoute_def split: option.splits outcome.splits)
  have cap: "FindBestRoute pools offers in' out amount = Some (Returns (Inl ErrNoRoute))"
    if "dijkstra ?g (String in') (String out) = Some (Some path, c)" "length path > MaxHops + 1"
    using that by (simp add: FindBestRoute_def)
  have sound: "Hops route \<noteq> []
         \<and> String (HopIn (hd (Hops route))) = String in'
         \<and> String (HopOut (last (Hops route))) = String out
         \<and> AmountIn (hd (Hops route)) = amount
         \<and> (\<forall>i. Suc i < length (Hops route) \<longrightarrow>
               String (HopOut (Hops route ! i)) = String (HopIn (Hops route ! Suc i))
               \<and> AmountOut (Hops route ! i) = AmountIn (Hops route ! Suc i))
         \<and> length (Hops route) \<le> MaxHops \<and> MaxHops = 3"
    if r: "FindBestRoute pools offers in' out amount = Some (Returns (Inr route))"
  proof -
    from r obtain p d where d: "dijkstra ?g (String in') (String out) = Some (Some p, d)"
      and len: "\<not> length p > MaxHops + 1"
      and b: "buildRoute pools offers p amount = Returns (Some route)"
      by (auto simp: FindBestRoute_def split: option.splits outcome.splits if_splits)
    from b have len2: "2 \<le> length p"
      and h: "buildHops pools offers p amount = Returns (Some (Hops route))"
      by (auto simp: buildRoute_def split: option.splits outcome.splits if_splits)
    have f: "follows (Hops route) p amount"
      using h by (rule buildHops_follows)
    have ends: "hd p = String in' \<and> last p = String out"
      using buildGraph_no_empty_node[OF assms] d len2 by (rule dijkstra_path_ends)
    show ?thesis
      using follows_props[OF f len2] ends len by (simp add: MaxHops_def)
  qed
  show ?thesis
    using total cap sound by blast
qed

text \<open>
  The original wording of C2 fails on a snapshot with an empty node: over the pools A - "",
  "" - B, B - C the search reaches C from A through the node "", the path recovery stops at
  the empty string, which it takes for a missing \<^verbatim>\<open>prev\<close> entry, and the route returned
  for the request from A to C is the single hop from B to C.
\<close>

theorem FindBestRoute_route_not_from_input:
  "FindBestRoute gap_pools [] (asset_of ''A'') (asset_of ''C'') 10 = Some (Returns (Inr gap_route))
   \<and> HopIn (hd (Hops gap_route)) = asset_of ''B''
   \<and> HopIn (hd (Hops gap_route)) \<noteq> asset_of ''A''
   \<and> String (HopIn (hd (Hops gap_route))) \<noteq> String (asset_of ''A'')"
proof -
  have "FindBestRoute gap_pools [] (asset_of ''A'') (asset_of ''C'') 10
          = Some (Returns (Inr gap_route))"
    by code_simp
  moreover have "HopIn (hd (Hops gap_route)) = asset_of ''B''"
    by (simp add: gap_route_def)
  moreover have "HopIn (hd (Hops gap_route)) \<noteq> asset_of ''A''"
    by (simp add: gap_route_def asset_of_def)
  moreover have "String (HopIn (hd (Hops gap_route))) \<noteq> String (asset_of ''A'')"
    by (simp add: gap_route_def asset_of_def String_def)
  ultimately show ?thesis
    by blast
qed

theorem FindBestRoute_sound_witness:
  "no_empty_node tie_pools []
   \<and> FindBestRoute tie_pools [] (asset_of ''S'') (asset_of ''E'') 10 = Some (Returns (Inr tie_route))
   \<and> Hops tie_route \<noteq> []
   \<and> String (HopIn (hd (Hops tie_route))) = String (asset_of ''S'')
   \<and> String (HopOut (last (Hops tie_route))) = String (asset_of ''E'')
   \<and> AmountIn (hd (Hops tie_route)) = 10
   \<and> String (HopOut (Hops tie_route ! 0)) = String (HopIn (Hops tie_route ! 1))
   \<and> AmountOut (Hops tie_route ! 0) = AmountIn (Hops tie_route ! 1)
   \<and> length (Hops tie_route) \<le> 3
   \<and> no_empty_node chain_pools []
   \<and> dijkstra (buildGraph chain_pools []) (String (asset_of ''A'')) (String (asset_of ''E''))
       = Some (Some [''A'', ''B'', ''C'', ''D'', ''E''], 12 / 1000)
   \<and> FindBestRoute chain_pools [] (asset_of ''A'') (asset_of ''E'') 10
       = Some (Returns (Inl ErrNoRoute))"
proof -
  have n1: "no_empty_node tie_pools []"
    by code_simp
  have r1: "FindBestRoute tie_pools [] (asset_of ''S'') (asset_of ''E'') 10
              = Some (Returns (Inr tie_route))"
    by code_simp
  have n2: "no_empty_node chain_pools []"
    by code_simp
  have d2: "dijkstra (buildGraph chain_pools []) (String (asset_of ''A'')) (String (asset_of ''E''))
              = Some (Some [''A'', ''B'', ''C'', ''D'', ''E''], 12 / 1000)"
    by code_simp
  have len: "Suc 0 < length (Hops tie_route)"
    by (simp add: tie_route_def)
  have long: "length [''A'', ''B'', ''C'', ''D'', ''E''] > MaxHops + 1"
    by (simp add: MaxHops_def)
  note t1 = FindBestRoute_sound [OF n1, of "asset_of ''S''" "asset_of ''E''" 10 tie_route]
  note t2 = FindBestRoute_sound [OF n2, of "asset_of ''A''" "asset_of ''E''" 10 _
      "[''A'', ''B'', ''C'', ''D'', ''E'']" "12 / 1000"]
  from t1 r1 have a: "Hops tie_route \<noteq> []"
    and b: "String (HopIn (hd (Hops tie_route))) = String (asset_of ''S'')"
    and c: "String (HopOut (last (Hops tie_route))) = String (asset_of ''E'')"
    and d: "AmountIn (hd (Hops tie_route)) = 10"
    and e: "\<forall>i. Suc i < length (Hops tie_route) \<longrightarrow>
               String (HopOut (Hops tie_route ! i)) = String (HopIn (Hops tie_route ! Suc i))
               \<and> AmountOut (Hops tie_route ! i) = AmountIn (Hops tie_route ! Suc i)"
    and f: "length (Hops tie_route) \<le> MaxHops" and g: "MaxHops = 3"
    by blast+
  from e len have e0: "String (HopOut (Hops tie_route ! 0)) = String (HopIn (Hops tie_route ! 1))"
    "AmountOut (Hops tie_route ! 0) = AmountIn (Hops tie_route ! 1)"
    by simp_all
  from t2 d2 long have h: "FindBestRoute chain_pools [] (asset_of ''A'') (asset_of ''E'') 10
       = Some (Returns (Inl ErrNoRoute))"
    by blast
  from f g have f': "length (Hops tie_route) \<le> 3"
    by simp
  show ?thesis
    using n1 r1 a b c d e0 f' n2 d2 h by blast
qed

end
